theory Spec2Isabelle
  imports Main
begin

section \<open>JavaScript values, objects and exceptions\<close>

text \<open>
  The values that flow through the validation pipeline of \<^verbatim>\<open>forms.js\<close>: raw input,
  cleaned values, and whatever a hook returns (a function that falls off its end returns
  \<^verbatim>\<open>undefined\<close>).
\<close>

datatype jsval =
    Undefined
  | Null
  | Bool bool
  | Num int
  | Str string
  | Obj "(string \<times> jsval) list"

text \<open>
  A plain object is the list of its own enumerable properties in enumeration order.
  The source relies on \<^verbatim>\<open>for (var name in obj)\<close> visiting properties in the order
  in which they were first assigned; assigning to an existing property keeps its place.
  Property names are unique in such a list (see \<open>wf_obj\<close>).
\<close>

type_synonym 'a jsobj = "(string \<times> 'a) list"

definition ownKeys :: "'a jsobj \<Rightarrow> string list" where
  "ownKeys ps = map fst ps"

definition wf_obj :: "'a jsobj \<Rightarrow> bool" where
  "wf_obj ps = distinct (ownKeys ps)"

fun hasOwnProperty :: "'a jsobj \<Rightarrow> string \<Rightarrow> bool" where
  "hasOwnProperty [] k = False"
| "hasOwnProperty (p # ps) k = (fst p = k \<or> hasOwnProperty ps k)"

text \<open>\<^verbatim>\<open>obj[k]\<close>: \<open>None\<close> stands for a missing property.\<close>

fun obj_get :: "'a jsobj \<Rightarrow> string \<Rightarrow> 'a option" where
  "obj_get [] k = None"
| "obj_get (p # ps) k = (if fst p = k then Some (snd p) else obj_get ps k)"

text \<open>\<^verbatim>\<open>obj[k] = v\<close>: overwrite in place, or append a new property.\<close>

fun obj_set :: "'a jsobj \<Rightarrow> string \<Rightarrow> 'a \<Rightarrow> 'a jsobj" where
  "obj_set [] k v = [(k, v)]"
| "obj_set (p # ps) k v = (if fst p = k then (k, v) # ps else p # obj_set ps k v)"

text \<open>\<^verbatim>\<open>delete obj[k]\<close>.\<close>

fun obj_delete :: "'a jsobj \<Rightarrow> string \<Rightarrow> 'a jsobj" where
  "obj_delete [] k = []"
| "obj_delete (p # ps) k = (if fst p = k then obj_delete ps k else p # obj_delete ps k)"

text \<open>
  Thrown values. The pipeline only asks \<^verbatim>\<open>e instanceof ValidationError\<close> and reads
  \<^verbatim>\<open>e.messages\<close>; everything else that can be thrown is an \<open>OtherError\<close>.
\<close>

datatype exn =
    ValidationError (messages: "string list")
  | OtherError string

definition TypeError :: exn where
  "TypeError = OtherError ''TypeError''"

fun isValidationError :: "exn \<Rightarrow> bool" where
  "isValidationError (ValidationError ms) = True"
| "isValidationError (OtherError s) = False"

text \<open>Property under which non-field-specific errors are stored.\<close>

definition NON_FIELD_ERRORS :: string where
  "NON_FIELD_ERRORS = ''__all__''"

section \<open>Collaborators that live outside \<^verbatim>\<open>forms.js\<close>\<close>

text \<open>
  Modelled from the spec: \<^verbatim>\<open>getDefault(o, prop, defaultValue)\<close> is a utility that is
  not part of \<^verbatim>\<open>forms.js\<close>. The per-instance map takes priority, the supplied default
  is the fallback.
\<close>

definition getDefault :: "'a jsobj \<Rightarrow> string \<Rightarrow> 'a \<Rightarrow> 'a" where
  "getDefault ob prop defaultValue =
     (case obj_get ob prop of None \<Rightarrow> defaultValue | Some v \<Rightarrow> v)"

text \<open>
  Modelled from the spec: the Error Report (\<^verbatim>\<open>ErrorObject\<close>, not part of
  \<^verbatim>\<open>forms.js\<close>) is an ordered mapping from key to message list; \<^verbatim>\<open>isPopulated()\<close>
  holds iff the report has at least one key. An \<^verbatim>\<open>ErrorList\<close> built by
  \<^verbatim>\<open>new this.errorConstructor(e.messages)\<close> is the list of its messages.
\<close>

type_synonym errorList = "string list"
type_synonym errorObject = "errorList jsobj"

definition ErrorObject :: errorObject where
  "ErrorObject = []"

definition errorObject_set :: "errorObject \<Rightarrow> string \<Rightarrow> errorList \<Rightarrow> errorObject" where
  "errorObject_set eo name el = obj_set eo name el"

definition errorObject_get :: "errorObject \<Rightarrow> string \<Rightarrow> errorList option" where
  "errorObject_get eo name = obj_get eo name"

definition isPopulated :: "errorObject \<Rightarrow> bool" where
  "isPopulated eo = (ownKeys eo \<noteq> [])"



section \<open>Fields and form instances\<close>

text \<open>
  A field capability, as far as \<^verbatim>\<open>forms.js\<close> uses it. \<open>field_clean\<close> takes the raw
  value and a second argument that only a \<^verbatim>\<open>FileField\<close> receives (\<open>Undefined\<close> when
  it is not passed). \<open>widget_valueFromData\<close> is \<^verbatim>\<open>field.widget.valueFromData\<close> and
  \<open>hiddenWidget_valueFromData\<close> is \<^verbatim>\<open>new field.hiddenWidget().valueFromData\<close>.
\<close>

record field =
  creationCounter :: nat
  isFileField :: bool
  field_initial :: jsval
  showHiddenInitial :: bool
  field_label :: "string option"
  field_helpText :: string
  widget_valueFromData :: "jsval jsobj \<Rightarrow> jsval jsobj \<Rightarrow> string \<Rightarrow> jsval"
  hiddenWidget_valueFromData :: "jsval jsobj \<Rightarrow> jsval jsobj \<Rightarrow> string \<Rightarrow> jsval"
  field_clean :: "jsval \<Rightarrow> jsval \<Rightarrow> exn + jsval"
  field_hasChanged :: "jsval \<Rightarrow> jsval \<Rightarrow> bool"

text \<open>
  Calls into the capabilities and hooks are logged, so that statements about which calls
  a run makes can be written down. The log is not a property of the JavaScript object.
\<close>

datatype call =
    FieldClean string
  | HookCall string
  | HasChangedCall string

text \<open>
  A form instance; \<open>form_fields\<close> is \<^verbatim>\<open>this.fields\<close>, and a leading underscore of
  the source is written \<open>u_\<close>. \<open>None\<close> is
  \<^verbatim>\<open>null\<close> for \<open>prefix\<close>, \<open>u_errors\<close> and \<open>u_changedData\<close>, and a missing property
  for \<open>cleanedData\<close>.
\<close>

record form =
  isBound :: bool
  data :: "jsval jsobj"
  files :: "jsval jsobj"
  autoId :: string
  prefix :: "string option"
  initial :: "jsval jsobj"
  labelSuffix :: string
  emptyPermitted :: bool
  u_errors :: "errorObject option"
  u_changedData :: "string list option"
  form_fields :: "field jsobj"
  cleanedData :: "jsval option"
  calls :: "call list"

text \<open>
  The keyword arguments of \<^verbatim>\<open>BaseForm\<close>, after \<^verbatim>\<open>extend\<close> has filled in the
  defaults; \<open>None\<close> is \<^verbatim>\<open>null\<close>.
\<close>

record kwargs =
  kw_data :: "jsval jsobj option"
  kw_files :: "jsval jsobj option"
  kw_autoId :: string
  kw_prefix :: "string option"
  kw_initial :: "jsval jsobj option"
  kw_labelSuffix :: string
  kw_emptyPermitted :: bool

definition default_kwargs :: kwargs where
  "default_kwargs =
     \<lparr> kw_data = None, kw_files = None, kw_autoId = ''id_%(name)s'', kw_prefix = None,
       kw_initial = None, kw_labelSuffix = '':'', kw_emptyPermitted = False \<rparr>"

text \<open>\<^verbatim>\<open>x || {}\<close> for an object or \<^verbatim>\<open>null\<close>.\<close>

definition orEmpty :: "'a jsobj option \<Rightarrow> 'a jsobj" where
  "orEmpty x = (case x of None \<Rightarrow> [] | Some ob \<Rightarrow> ob)"

text \<open>
  \<^verbatim>\<open>BaseForm(kwargs)\<close>; \<open>baseFields\<close> is the prototype-wide definition of fields, which
  the constructor deep-copies.
\<close>

definition BaseForm :: "field jsobj \<Rightarrow> kwargs \<Rightarrow> form" where
  "BaseForm baseFields kw =
     \<lparr> isBound = (kw_data kw \<noteq> None \<or> kw_files kw \<noteq> None),
       data = orEmpty (kw_data kw),
       files = orEmpty (kw_files kw),
       autoId = kw_autoId kw,
       prefix = kw_prefix kw,
       initial = orEmpty (kw_initial kw),
       labelSuffix = kw_labelSuffix kw,
       emptyPermitted = kw_emptyPermitted kw,
       u_errors = None,
       u_changedData = None,
       form_fields = baseFields,
       cleanedData = None,
       calls = [] \<rparr>"

text \<open>
  \<^verbatim>\<open>addPrefix\<close> and \<^verbatim>\<open>addInitialPrefix\<close>. The \<^verbatim>\<open>format\<close> utility fills the
  placeholders of \<^verbatim>\<open>'%(prefix)s-%(fieldName)s'\<close> and \<^verbatim>\<open>'initial-%(fieldName)s'\<close>.
\<close>

definition addPrefix :: "form \<Rightarrow> string \<Rightarrow> string" where
  "addPrefix f fieldName =
     (case prefix f of
        Some p \<Rightarrow> p @ ''-'' @ fieldName
      | None \<Rightarrow> fieldName)"

definition addInitialPrefix :: "form \<Rightarrow> string \<Rightarrow> string" where
  "addInitialPrefix f fieldName = ''initial-'' @ addPrefix f fieldName"

text \<open>\<^verbatim>\<open>_rawValue\<close>, for a field of the form.\<close>

definition u_rawValue :: "form \<Rightarrow> string \<Rightarrow> field \<Rightarrow> jsval" where
  "u_rawValue f fieldname fld =
     widget_valueFromData fld (data f) (files f) (addPrefix f fieldname)"

section \<open>Methods found on an instance\<close>

text \<open>
  What \<^verbatim>\<open>this[name]\<close> finds beyond the instance's data: the entries that a composed
  schema adds to its prototype, which take precedence over the two overridable hooks that
  \<^verbatim>\<open>BaseForm.prototype\<close> provides. A hook is a function of the instance it is called on:
  it reads the instance and returns a value or throws. (The hooks of the source read
  \<^verbatim>\<open>this.cleanedData\<close> and return the cleaned value; a hook that writes to the
  instance is outside this model.)
\<close>

datatype member =
    Method "form \<Rightarrow> exn + jsval"
  | Data jsval

type_synonym proto = "string \<Rightarrow> member option"

text \<open>\<^verbatim>\<open>BaseForm.prototype.clean\<close>: \<^verbatim>\<open>return this.cleanedData\<close>.\<close>

definition BaseForm_clean :: "form \<Rightarrow> exn + jsval" where
  "BaseForm_clean f = Inr (case cleanedData f of None \<Rightarrow> Undefined | Some v \<Rightarrow> v)"

text \<open>\<^verbatim>\<open>BaseForm.prototype._postClean\<close>: an empty function.\<close>

definition BaseForm_postClean :: "form \<Rightarrow> exn + jsval" where
  "BaseForm_postClean f = Inr Undefined"

definition this_member :: "proto \<Rightarrow> string \<Rightarrow> member option" where
  "this_member pr name =
     (case pr name of
        Some m \<Rightarrow> Some m
      | None \<Rightarrow>
          if name = ''clean'' then Some (Method BaseForm_clean)
          else if name = ''_postClean'' then Some (Method BaseForm_postClean)
          else None)"

text \<open>
  \<^verbatim>\<open>typeof this[name] != 'undefined' && isFunction(this[name])\<close>, giving the function.
\<close>

definition this_function :: "proto \<Rightarrow> string \<Rightarrow> (form \<Rightarrow> exn + jsval) option" where
  "this_function pr name =
     (case this_member pr name of
        Some (Method h) \<Rightarrow> Some h
      | _ \<Rightarrow> None)"

definition logCall :: "call \<Rightarrow> form \<Rightarrow> form" where
  "logCall c f = f\<lparr>calls := calls f @ [c]\<rparr>"

text \<open>
  \<^verbatim>\<open>this[name]()\<close>: calling something that is not a function is a \<^verbatim>\<open>TypeError\<close>.
\<close>

definition call_method :: "proto \<Rightarrow> string \<Rightarrow> form \<Rightarrow> (exn + jsval) \<times> form" where
  "call_method pr name f =
     (case this_function pr name of
        Some h \<Rightarrow> (let f1 = logCall (HookCall name) f in (h f1, f1))
      | None \<Rightarrow> (Inl TypeError, f))"

section \<open>Change detection\<close>

text \<open>
  The body of the loop of \<^verbatim>\<open>changedData\<close> for one own property of
  \<^verbatim>\<open>this.fields\<close>: the submitted value, the initial value (read from the hidden
  widget when the field shows a hidden initial), and the push onto
  \<^verbatim>\<open>this._changedData\<close>.
\<close>

definition changedData_step :: "form \<Rightarrow> string \<times> field \<Rightarrow> form" where
  "changedData_step f nf =
     (let name = fst nf;
          fld = snd nf;
          prefixedName = addPrefix f name;
          dataValue = widget_valueFromData fld (data f) (files f) prefixedName;
          initialValue = getDefault (initial f) name (field_initial fld);
          initialValue =
            (if showHiddenInitial fld
             then hiddenWidget_valueFromData fld (data f) (files f) (addInitialPrefix f name)
             else initialValue);
          f1 = logCall (HasChangedCall name) f
      in if field_hasChanged fld initialValue dataValue
         then f1\<lparr>u_changedData := map_option (\<lambda>l. l @ [name]) (u_changedData f1)\<rparr>
         else f1)"

text \<open>
  \<^verbatim>\<open>changedData\<close>: computed when \<^verbatim>\<open>this._changedData\<close> is \<^verbatim>\<open>null\<close>, and
  returned from there. (The loop leaves a list there, so the \<open>None\<close> branch of the
  final read is never taken.)
\<close>

definition changedData :: "form \<Rightarrow> string list \<times> form" where
  "changedData f =
     (let f' =
        (case u_changedData f of
           None \<Rightarrow> foldl changedData_step (f\<lparr>u_changedData := Some []\<rparr>) (form_fields f)
         | Some l \<Rightarrow> f)
      in (case u_changedData f' of None \<Rightarrow> [] | Some l \<Rightarrow> l, f'))"

text \<open>\<^verbatim>\<open>hasChanged\<close>: \<^verbatim>\<open>this.changedData().length > 0\<close>.\<close>

definition hasChanged :: "form \<Rightarrow> bool \<times> form" where
  "hasChanged f = (let r = changedData f in (length (fst r) > 0, snd r))"

section \<open>The validation pipeline\<close>

text \<open>
  Property access on \<^verbatim>\<open>this.cleanedData\<close>. Reading or writing a property of
  \<^verbatim>\<open>undefined\<close> or \<^verbatim>\<open>null\<close> is a \<^verbatim>\<open>TypeError\<close>; a primitive ignores the
  assignment and reads back \<^verbatim>\<open>undefined\<close>.
\<close>

fun setProperty :: "jsval option \<Rightarrow> string \<Rightarrow> jsval \<Rightarrow> exn + jsval option" where
  "setProperty (Some (Obj ps)) k v = Inr (Some (Obj (obj_set ps k v)))"
| "setProperty None k v = Inl TypeError"
| "setProperty (Some Undefined) k v = Inl TypeError"
| "setProperty (Some Null) k v = Inl TypeError"
| "setProperty (Some (Bool b)) k v = Inr (Some (Bool b))"
| "setProperty (Some (Num n)) k v = Inr (Some (Num n))"
| "setProperty (Some (Str s)) k v = Inr (Some (Str s))"

fun getProperty :: "jsval option \<Rightarrow> string \<Rightarrow> exn + jsval" where
  "getProperty (Some (Obj ps)) k = Inr (case obj_get ps k of None \<Rightarrow> Undefined | Some v \<Rightarrow> v)"
| "getProperty None k = Inl TypeError"
| "getProperty (Some Undefined) k = Inl TypeError"
| "getProperty (Some Null) k = Inl TypeError"
| "getProperty (Some (Bool b)) k = Inr Undefined"
| "getProperty (Some (Num n)) k = Inr Undefined"
| "getProperty (Some (Str s)) k = Inr Undefined"

fun deleteProperty :: "jsval option \<Rightarrow> string \<Rightarrow> exn + jsval option" where
  "deleteProperty (Some (Obj ps)) k = Inr (Some (Obj (obj_delete ps k)))"
| "deleteProperty None k = Inl TypeError"
| "deleteProperty (Some Undefined) k = Inl TypeError"
| "deleteProperty (Some Null) k = Inl TypeError"
| "deleteProperty (Some (Bool b)) k = Inr (Some (Bool b))"
| "deleteProperty (Some (Num n)) k = Inr (Some (Num n))"
| "deleteProperty (Some (Str s)) k = Inr (Some (Str s))"

text \<open>
  The names under which a custom cleaning hook for a field is looked up:
  \<^verbatim>\<open>'clean_' + name\<close>, and \<^verbatim>\<open>'clean' + name.charAt(0).toUpperCase() + name.substr(1)\<close>
  (\<open>toUpperCase\<close> on the ASCII letters).
\<close>

definition toUpperCase :: "char \<Rightarrow> char" where
  "toUpperCase c =
     (let n = (of_char c :: nat) in if 97 \<le> n \<and> n \<le> 122 then char_of (n - 32) else c)"

definition cleanUnderscoreName :: "string \<Rightarrow> string" where
  "cleanUnderscoreName name = ''clean_'' @ name"

definition cleanCamelName :: "string \<Rightarrow> string" where
  "cleanCamelName name =
     ''clean'' @ (case name of [] \<Rightarrow> [] | c # cs \<Rightarrow> toUpperCase c # cs)"

text \<open>\<^verbatim>\<open>this.cleanedData[name] = this[customClean]()\<close>.\<close>

definition runCustomClean :: "proto \<Rightarrow> string \<Rightarrow> string \<Rightarrow> form \<Rightarrow> (exn + unit) \<times> form" where
  "runCustomClean pr customClean name f =
     (case call_method pr customClean f of
        (Inl e, f1) \<Rightarrow> (Inl e, f1)
      | (Inr v, f1) \<Rightarrow>
          (case setProperty (cleanedData f1) name v of
             Inl e \<Rightarrow> (Inl e, f1)
           | Inr cd \<Rightarrow> (Inr (), f1\<lparr>cleanedData := cd\<rparr>)))"

text \<open>The \<^verbatim>\<open>try\<close> block of the loop of \<^verbatim>\<open>_cleanFields\<close>.\<close>

definition tryCleanField :: "proto \<Rightarrow> form \<Rightarrow> string \<Rightarrow> field \<Rightarrow> jsval \<Rightarrow> (exn + unit) \<times> form" where
  "tryCleanField pr f name fld val =
     (let f1 = logCall (FieldClean name) f;
          r = (if isFileField fld
               then field_clean fld val (getDefault (initial f) name (field_initial fld))
               else field_clean fld val Undefined)
      in case r of
           Inl e \<Rightarrow> (Inl e, f1)
         | Inr v \<Rightarrow>
             (case setProperty (cleanedData f1) name v of
                Inl e \<Rightarrow> (Inl e, f1)
              | Inr cd \<Rightarrow>
                  (let f2 = f1\<lparr>cleanedData := cd\<rparr> in
                   case this_function pr (cleanUnderscoreName name) of
                     Some h \<Rightarrow> runCustomClean pr (cleanUnderscoreName name) name f2
                   | None \<Rightarrow>
                       (case this_function pr (cleanCamelName name) of
                          Some h \<Rightarrow> runCustomClean pr (cleanCamelName name) name f2
                        | None \<Rightarrow> (Inr (), f2)))))"

text \<open>The \<^verbatim>\<open>catch\<close> block of the loop of \<^verbatim>\<open>_cleanFields\<close>.\<close>

definition catchCleanField :: "form \<Rightarrow> string \<Rightarrow> exn \<Rightarrow> (exn + unit) \<times> form" where
  "catchCleanField f name e =
     (case e of
        OtherError x \<Rightarrow> (Inl e, f)
      | ValidationError ms \<Rightarrow>
          (case u_errors f of
             None \<Rightarrow> (Inl TypeError, f)
           | Some eo \<Rightarrow>
               (let f1 = f\<lparr>u_errors := Some (errorObject_set eo name ms)\<rparr> in
                case getProperty (cleanedData f1) name of
                  Inl e' \<Rightarrow> (Inl e', f1)
                | Inr v \<Rightarrow>
                    if v \<noteq> Undefined
                    then (case deleteProperty (cleanedData f1) name of
                            Inl e' \<Rightarrow> (Inl e', f1)
                          | Inr cd \<Rightarrow> (Inr (), f1\<lparr>cleanedData := cd\<rparr>))
                    else (Inr (), f1))))"

text \<open>One iteration of the loop of \<^verbatim>\<open>_cleanFields\<close>.\<close>

definition cleanField :: "proto \<Rightarrow> form \<Rightarrow> string \<times> field \<Rightarrow> (exn + unit) \<times> form" where
  "cleanField pr f nf =
     (let name = fst nf;
          fld = snd nf;
          val = widget_valueFromData fld (data f) (files f) (addPrefix f name)
      in case tryCleanField pr f name fld val of
           (Inr u, f1) \<Rightarrow> (Inr (), f1)
         | (Inl e, f1) \<Rightarrow> catchCleanField f1 name e)"

text \<open>The loop over the own properties of \<^verbatim>\<open>this.fields\<close>; a throw leaves it.\<close>

fun cleanFields_loop :: "proto \<Rightarrow> form \<Rightarrow> (string \<times> field) list \<Rightarrow> (exn + unit) \<times> form" where
  "cleanFields_loop pr f [] = (Inr (), f)"
| "cleanFields_loop pr f (nf # rest) =
     (case cleanField pr f nf of
        (Inl e, f1) \<Rightarrow> (Inl e, f1)
      | (Inr u, f1) \<Rightarrow> cleanFields_loop pr f1 rest)"

definition u_cleanFields :: "proto \<Rightarrow> form \<Rightarrow> (exn + unit) \<times> form" where
  "u_cleanFields pr f = cleanFields_loop pr f (form_fields f)"

definition u_cleanForm :: "proto \<Rightarrow> form \<Rightarrow> (exn + unit) \<times> form" where
  "u_cleanForm pr f =
     (case call_method pr ''clean'' f of
        (Inr v, f1) \<Rightarrow> (Inr (), f1\<lparr>cleanedData := Some v\<rparr>)
      | (Inl (OtherError x), f1) \<Rightarrow> (Inl (OtherError x), f1)
      | (Inl (ValidationError ms), f1) \<Rightarrow>
          (case u_errors f1 of
             None \<Rightarrow> (Inl TypeError, f1)
           | Some eo \<Rightarrow>
               (Inr (), f1\<lparr>u_errors := Some (errorObject_set eo NON_FIELD_ERRORS ms)\<rparr>)))"

definition u_postClean :: "proto \<Rightarrow> form \<Rightarrow> (exn + unit) \<times> form" where
  "u_postClean pr f =
     (case call_method pr ''_postClean'' f of
        (Inl e, f1) \<Rightarrow> (Inl e, f1)
      | (Inr v, f1) \<Rightarrow> (Inr (), f1))"

text \<open>
  The part of \<^verbatim>\<open>fullClean\<close> after the short circuit: the three cleaning steps, then
  \<^verbatim>\<open>if (this._errors.isPopulated()) delete this.cleanedData\<close>.
\<close>

definition fullClean_steps :: "proto \<Rightarrow> form \<Rightarrow> (exn + unit) \<times> form" where
  "fullClean_steps pr f =
     (case u_cleanFields pr f of
        (Inl e, f1) \<Rightarrow> (Inl e, f1)
      | (Inr u1, f1) \<Rightarrow>
          (case u_cleanForm pr f1 of
             (Inl e, f2) \<Rightarrow> (Inl e, f2)
           | (Inr u2, f2) \<Rightarrow>
               (case u_postClean pr f2 of
                  (Inl e, f3) \<Rightarrow> (Inl e, f3)
                | (Inr u3, f3) \<Rightarrow>
                    (case u_errors f3 of
                       None \<Rightarrow> (Inl TypeError, f3)
                     | Some eo \<Rightarrow>
                         if isPopulated eo then (Inr (), f3\<lparr>cleanedData := None\<rparr>)
                         else (Inr (), f3)))))"

definition fullClean :: "proto \<Rightarrow> form \<Rightarrow> (exn + unit) \<times> form" where
  "fullClean pr f =
     (let f1 = f\<lparr>u_errors := Some ErrorObject\<rparr> in
      if \<not> isBound f1 then (Inr (), f1)
      else
        (let f2 = f1\<lparr>cleanedData := Some (Obj [])\<rparr> in
         if emptyPermitted f2
         then (let r = hasChanged f2 in
               if \<not> fst r then (Inr (), snd r) else fullClean_steps pr (snd r))
         else fullClean_steps pr f2))"

text \<open>
  \<^verbatim>\<open>errors()\<close> without a name: cleans the form when \<^verbatim>\<open>this._errors\<close> is
  \<^verbatim>\<open>null\<close>, then returns \<^verbatim>\<open>this._errors\<close>.
\<close>

definition errors :: "proto \<Rightarrow> form \<Rightarrow> (exn + errorObject option) \<times> form" where
  "errors pr f =
     (if u_errors f = None
      then (case fullClean pr f of
              (Inl e, f1) \<Rightarrow> (Inl e, f1)
            | (Inr u, f1) \<Rightarrow> (Inr (u_errors f1), f1))
      else (Inr (u_errors f), f))"

text \<open>
  \<^verbatim>\<open>errors(name)\<close>: \<^verbatim>\<open>this._errors.get(name)\<close> when the name is truthy (not
  empty), the whole report otherwise.
\<close>

datatype errorsResult =
    Report "errorObject option"
  | Messages "errorList option"

definition errors_for :: "proto \<Rightarrow> form \<Rightarrow> string \<Rightarrow> (exn + errorsResult) \<times> form" where
  "errors_for pr f name =
     (case errors pr f of
        (Inl e, f1) \<Rightarrow> (Inl e, f1)
      | (Inr r, f1) \<Rightarrow>
          if name \<noteq> []
          then (case r of
                  None \<Rightarrow> (Inl TypeError, f1)
                | Some eo \<Rightarrow> (Inr (Messages (errorObject_get eo name)), f1))
          else (Inr (Report r), f1))"

definition isValid :: "proto \<Rightarrow> form \<Rightarrow> (exn + bool) \<times> form" where
  "isValid pr f =
     (if \<not> isBound f then (Inr False, f)
      else (case errors pr f of
              (Inl e, f1) \<Rightarrow> (Inl e, f1)
            | (Inr None, f1) \<Rightarrow> (Inl TypeError, f1)
            | (Inr (Some eo), f1) \<Rightarrow> (Inr (\<not> isPopulated eo), f1)))"

text \<open>
  \<^verbatim>\<open>nonFieldErrors\<close>: \<^verbatim>\<open>this.errors(NON_FIELD_ERRORS) || new this.errorConstructor()\<close>.
  The key is not empty, so \<^verbatim>\<open>errors\<close> answers with the messages under it; without
  any, the result is a new empty list.
\<close>

definition nonFieldErrors :: "proto \<Rightarrow> form \<Rightarrow> (exn + errorList) \<times> form" where
  "nonFieldErrors pr f =
     (case errors_for pr f NON_FIELD_ERRORS of
        (Inl e, f1) \<Rightarrow> (Inl e, f1)
      | (Inr (Messages (Some el)), f1) \<Rightarrow> (Inr el, f1)
      | (Inr (Messages None), f1) \<Rightarrow> (Inr [], f1)
      | (Inr (Report r), f1) \<Rightarrow> (Inr [], f1))"

section \<open>Bound fields\<close>

text \<open>
  The view that \<^verbatim>\<open>BoundField(form, field, name)\<close> builds. The reference to the form is
  left out of the record: the form is the argument of every function below. The
  utilities \<^verbatim>\<open>format\<close> (for the \<^verbatim>\<open>%(name)s\<close> placeholder of an \<^verbatim>\<open>autoId\<close>) and
  \<^verbatim>\<open>prettyName\<close> are not part of \<^verbatim>\<open>forms.js\<close> and are parameters.
\<close>

record util =
  formatName :: "string \<Rightarrow> string \<Rightarrow> string"
  prettyName :: "string \<Rightarrow> string"

record boundField =
  bf_field :: field
  bf_name :: string
  bf_htmlName :: string
  bf_htmlInitialName :: string
  bf_htmlInitialId :: string
  bf_label :: string
  bf_helpText :: string

text \<open>\<^verbatim>\<open>s.indexOf(pat) != -1\<close>.\<close>

fun startsWith :: "string \<Rightarrow> string \<Rightarrow> bool" where
  "startsWith [] s = True"
| "startsWith (p # ps) [] = False"
| "startsWith (p # ps) (c # cs) = (p = c \<and> startsWith ps cs)"

fun containsString :: "string \<Rightarrow> string \<Rightarrow> bool" where
  "containsString pat [] = (pat = [])"
| "containsString pat (c # cs) = (startsWith pat (c # cs) \<or> containsString pat cs)"

text \<open>
  \<^verbatim>\<open>BoundField.prototype.autoId\<close>; an \<^verbatim>\<open>autoId\<close> that is not truthy is the empty
  string here.
\<close>

definition BoundField_autoId :: "util \<Rightarrow> form \<Rightarrow> string \<Rightarrow> string" where
  "BoundField_autoId ut f htmlName =
     (if autoId f \<noteq> []
      then (if containsString ''%(name)s'' (autoId f)
            then formatName ut (autoId f) htmlName
            else htmlName)
      else [])"

definition BoundField :: "util \<Rightarrow> form \<Rightarrow> field \<Rightarrow> string \<Rightarrow> boundField" where
  "BoundField ut f fld name =
     \<lparr> bf_field = fld,
       bf_name = name,
       bf_htmlName = addPrefix f name,
       bf_htmlInitialName = addInitialPrefix f name,
       bf_htmlInitialId = addInitialPrefix f (BoundField_autoId ut f (addPrefix f name)),
       bf_label = (case field_label fld of Some l \<Rightarrow> l | None \<Rightarrow> prettyName ut name),
       bf_helpText = field_helpText fld \<rparr>"

text \<open>
  \<^verbatim>\<open>boundField(name)\<close>. Building a view of \<^verbatim>\<open>this.fields[name]\<close> when that is
  \<^verbatim>\<open>undefined\<close> would be a \<^verbatim>\<open>TypeError\<close>.
\<close>

definition boundField :: "util \<Rightarrow> form \<Rightarrow> string \<Rightarrow> exn + boundField" where
  "boundField ut f name =
     (if \<not> hasOwnProperty (form_fields f) name
      then Inl (OtherError (''Form does not have a '' @ [CHR 0x27] @ name @ [CHR 0x27] @ '' field.''))
      else (case obj_get (form_fields f) name of
              None \<Rightarrow> Inl TypeError
            | Some fld \<Rightarrow> Inr (BoundField ut f fld name)))"

section \<open>Schema composition\<close>





section \<open>Using an instance\<close>

text \<open>
  What a caller does with an instance, one use after the other; a caller that catches a
  throw goes on with the instance as the throw left it.
\<close>

datatype use =
    ReadErrors
  | ReadErrorsFor string
  | ReadNonFieldErrors
  | ReadIsValid
  | ReadCleanedData
  | ReadChangedData
  | ReadHasChanged
  | CallFullClean

fun use_step :: "proto \<Rightarrow> form \<Rightarrow> use \<Rightarrow> form" where
  "use_step pr f ReadErrors = snd (errors pr f)"
| "use_step pr f (ReadErrorsFor name) = snd (errors_for pr f name)"
| "use_step pr f ReadNonFieldErrors = snd (nonFieldErrors pr f)"
| "use_step pr f ReadIsValid = snd (isValid pr f)"
| "use_step pr f ReadCleanedData = f"
| "use_step pr f ReadChangedData = snd (changedData f)"
| "use_step pr f ReadHasChanged = snd (hasChanged f)"
| "use_step pr f CallFullClean = snd (fullClean pr f)"

definition uses :: "proto \<Rightarrow> form \<Rightarrow> use list \<Rightarrow> form" where
  "uses pr f us = foldl (use_step pr) f us"

text \<open>The names of the fields whose \<^verbatim>\<open>clean\<close> a log records, in call order.\<close>

fun cleanedNames :: "call list \<Rightarrow> string list" where
  "cleanedNames [] = []"
| "cleanedNames (FieldClean n # cs) = n # cleanedNames cs"
| "cleanedNames (HookCall n # cs) = cleanedNames cs"
| "cleanedNames (HasChangedCall n # cs) = cleanedNames cs"

text \<open>
  What the change detector asks of one field, in the spec's words: the field's own
  predicate on the initial value (the instance's \<open>initial\<close> map first, then the field's
  own initial; the hidden-initial channel instead when the field requests it) and the
  submitted raw value.
\<close>

definition fieldChanged :: "form \<Rightarrow> string \<Rightarrow> field \<Rightarrow> bool" where
  "fieldChanged f name fld =
     field_hasChanged fld
       (if showHiddenInitial fld
        then hiddenWidget_valueFromData fld (data f) (files f) (''initial-'' @ addPrefix f name)
        else (case obj_get (initial f) name of Some v \<Rightarrow> v | None \<Rightarrow> field_initial fld))
       (u_rawValue f name fld)"

text \<open>What the \<^verbatim>\<open>clean\<close> of a field of the form answers on the submitted data.\<close>

definition fieldCleanResult :: "form \<Rightarrow> string \<Rightarrow> field \<Rightarrow> exn + jsval" where
  "fieldCleanResult f name fld =
     (if isFileField fld
      then field_clean fld (u_rawValue f name fld) (getDefault (initial f) name (field_initial fld))
      else field_clean fld (u_rawValue f name fld) Undefined)"

section \<open>An example schema\<close>

text \<open>
  The schema of the spec's scenarios: \<open>name\<close>, a required text, and \<open>age\<close>, an optional
  integer with initial 0. Both read their value from the data under their name.
\<close>

definition textWidget_valueFromData :: "jsval jsobj \<Rightarrow> jsval jsobj \<Rightarrow> string \<Rightarrow> jsval" where
  "textWidget_valueFromData d fs name = getDefault d name Null"

definition blankAsEmpty :: "jsval \<Rightarrow> jsval" where
  "blankAsEmpty v = (if v = Null then Str [] else v)"

definition nameField :: field where
  "nameField =
     \<lparr> creationCounter = 0, isFileField = False, field_initial = Null,
       showHiddenInitial = False, field_label = None, field_helpText = [],
       widget_valueFromData = textWidget_valueFromData,
       hiddenWidget_valueFromData = textWidget_valueFromData,
       field_clean = (\<lambda>v i. if v = Null \<or> v = Str []
                            then Inl (ValidationError [''This field is required.''])
                            else Inr v),
       field_hasChanged = (\<lambda>i d. blankAsEmpty i \<noteq> blankAsEmpty d) \<rparr>"

definition digitValue :: "char \<Rightarrow> int option" where
  "digitValue c =
     (let n = (of_char c :: nat) in if 48 \<le> n \<and> n \<le> 57 then Some (int (n - 48)) else None)"

fun parseDigits :: "int \<Rightarrow> string \<Rightarrow> int option" where
  "parseDigits acc [] = Some acc"
| "parseDigits acc (c # cs) =
     (case digitValue c of None \<Rightarrow> None | Some d \<Rightarrow> parseDigits (10 * acc + d) cs)"

fun cleanInteger :: "jsval \<Rightarrow> exn + jsval" where
  "cleanInteger Null = Inr Null"
| "cleanInteger (Str []) = Inr Null"
| "cleanInteger (Str (c # cs)) =
     (case parseDigits 0 (c # cs) of
        Some n \<Rightarrow> Inr (Num n)
      | None \<Rightarrow> Inl (ValidationError [''Enter a whole number.'']))"
| "cleanInteger v = Inl (ValidationError [''Enter a whole number.''])"

definition ageField :: field where
  "ageField =
     \<lparr> creationCounter = 1, isFileField = False, field_initial = Num 0,
       showHiddenInitial = False, field_label = None, field_helpText = [],
       widget_valueFromData = textWidget_valueFromData,
       hiddenWidget_valueFromData = textWidget_valueFromData,
       field_clean = (\<lambda>v i. cleanInteger v),
       field_hasChanged = (\<lambda>i d. blankAsEmpty i \<noteq> blankAsEmpty d) \<rparr>"

definition personFields :: "field jsobj" where
  "personFields = [(''name'', nameField), (''age'', ageField)]"

definition exampleUtil :: util where
  "exampleUtil = \<lparr> formatName = (\<lambda>template v. ''id_'' @ v), prettyName = (\<lambda>n. n) \<rparr>"

text \<open>A prototype without entries of its own: only the hooks of \<^verbatim>\<open>BaseForm\<close>.\<close>

definition noProto :: proto where
  "noProto = (\<lambda>name. None)"



text \<open>
  The changed field names in the spec's words: the names of the declared fields, in
  declaration order, for which the change predicate answers true.
\<close>

definition changedNames :: "form \<Rightarrow> string list" where
  "changedNames f = map fst (filter (\<lambda>nf. fieldChanged f (fst nf) (snd nf)) (form_fields f))"

text \<open>
  Submissions for the example schema: an invalid one and a valid one (the spec's
  scenarios), and one that echoes the starting value of \<open>name\<close> back under the
  \<^verbatim>\<open>initial-\<close> name.
\<close>

definition invalidPerson :: kwargs where
  "invalidPerson = default_kwargs\<lparr>kw_data := Some [(''name'', Str ''''), (''age'', Str ''7'')]\<rparr>"

definition validPerson :: kwargs where
  "validPerson = default_kwargs\<lparr>kw_data := Some [(''name'', Str ''Ada''), (''age'', Str ''7'')]\<rparr>"

definition echoedPerson :: kwargs where
  "echoedPerson =
     default_kwargs\<lparr>kw_data := Some [(''name'', Str ''Ada''), (''initial-name'', Str ''Bob''),
                                    (''age'', Str ''7'')],
                    kw_initial := Some [(''name'', Str ''Ada''), (''age'', Str ''7'')]\<rparr>"

definition echoFields :: "field jsobj" where
  "echoFields = [(''name'', nameField\<lparr>showHiddenInitial := True\<rparr>), (''age'', ageField)]"

text \<open>
  What the pipeline never writes: the input an instance was constructed with, and its
  fields.
\<close>

definition sameInput :: "form \<Rightarrow> form \<Rightarrow> bool" where
  "sameInput f f' \<longleftrightarrow>
     isBound f' = isBound f \<and> data f' = data f \<and> files f' = files f \<and>
     autoId f' = autoId f \<and> prefix f' = prefix f \<and> initial f' = initial f \<and>
     labelSuffix f' = labelSuffix f \<and> emptyPermitted f' = emptyPermitted f \<and>
     form_fields f' = form_fields f"

text \<open>
  The state in which \<^verbatim>\<open>fullClean\<close> starts the cleaning steps of a bound instance: a
  new Error Report and an empty \<^verbatim>\<open>cleanedData\<close>.
\<close>

definition startCleaning :: "form \<Rightarrow> form" where
  "startCleaning f = f\<lparr>u_errors := Some ErrorObject, cleanedData := Some (Obj [])\<rparr>"



text \<open>
  The instance as a custom hook of a field sees it: the field's \<^verbatim>\<open>clean\<close> and the hook
  are logged, and the cleaned value \<open>v\<close> is stored under the field's name.
\<close>

definition hookState :: "form \<Rightarrow> jsval jsobj \<Rightarrow> string \<Rightarrow> jsval \<Rightarrow> string \<Rightarrow> form" where
  "hookState f cd name v customClean =
     f\<lparr>calls := calls f @ [FieldClean name, HookCall customClean],
       cleanedData := Some (Obj (obj_set cd name v))\<rparr>"

text \<open>
  Prototypes for the example schema: one with both hooks for \<open>name\<close>, the exact-name one
  returning nothing, and one with the camel-cased hook only.
\<close>

definition bothHooks :: proto where
  "bothHooks =
     (\<lambda>hn. if hn = ''clean_name'' then Some (Method (\<lambda>f. Inr Undefined))
           else if hn = ''cleanName'' then Some (Method (\<lambda>f. Inr (Str ''camel'')))
           else None)"

definition camelHook :: proto where
  "camelHook =
     (\<lambda>hn. if hn = ''cleanName'' then Some (Method (\<lambda>f. Inr (Str ''camel''))) else None)"

text \<open>
  The instance on which \<^verbatim>\<open>fullClean\<close> runs its cleaning steps when it does not stop
  early: the change detector has run if the form is permitted to be empty.
\<close>

definition stepsStart :: "form \<Rightarrow> form" where
  "stepsStart f =
     (if emptyPermitted f then snd (hasChanged (startCleaning f)) else startCleaning f)"

text \<open>
  A blank submission for the example schema on a form that is permitted to be empty:
  nothing differs from the initial values, and \<open>name\<close> would fail its cleaning.
\<close>

definition blankPerson :: kwargs where
  "blankPerson =
     default_kwargs\<lparr>kw_data := Some [(''name'', Str ''''), (''age'', Str ''0'')],
                    kw_initial := Some [(''age'', Str ''0'')],
                    kw_emptyPermitted := True\<rparr>"

text \<open>
  Prototypes whose form-wide \<^verbatim>\<open>clean\<close> fails: with a \<^verbatim>\<open>ValidationError\<close>, and with
  something else.
\<close>

definition cleanRejects :: proto where
  "cleanRejects =
     (\<lambda>hn. if hn = ''clean'' then Some (Method (\<lambda>f. Inl (ValidationError [''Too young.''])))
           else None)"

definition cleanBreaks :: proto where
  "cleanBreaks =
     (\<lambda>hn. if hn = ''clean'' then Some (Method (\<lambda>f. Inl (OtherError ''ReferenceError'')))
           else None)"

section \<open>Facts about objects\<close>

lemma hasOwnProperty_iff: "hasOwnProperty ps k \<longleftrightarrow> k \<in> set (ownKeys ps)"
  by (induction ps) (auto simp: ownKeys_def)

lemma obj_get_None_iff: "obj_get ps k = None \<longleftrightarrow> k \<notin> set (ownKeys ps)"
  by (induction ps) (auto simp: ownKeys_def)

lemma obj_get_Some_mem: "obj_get ps k = Some v \<Longrightarrow> (k, v) \<in> set ps"
  by (induction ps) (auto split: if_splits)

lemma obj_get_distinct: "wf_obj ps \<Longrightarrow> (k, v) \<in> set ps \<Longrightarrow> obj_get ps k = Some v"
  by (induction ps) (auto simp: wf_obj_def ownKeys_def rev_image_eqI)

lemma ownKeys_obj_set:
  "ownKeys (obj_set ps k v) = (if k \<in> set (ownKeys ps) then ownKeys ps else ownKeys ps @ [k])"
  by (induction ps) (auto simp: ownKeys_def)

lemma obj_get_obj_set: "obj_get (obj_set ps k v) k' = (if k' = k then Some v else obj_get ps k')"
  by (induction ps) auto

lemma obj_set_twice: "obj_set (obj_set ps k v) k w = obj_set ps k w"
  by (induction ps) auto

lemma wf_obj_set: "wf_obj ps \<Longrightarrow> wf_obj (obj_set ps k v)"
  by (simp add: wf_obj_def ownKeys_obj_set)

lemma ownKeys_obj_delete: "ownKeys (obj_delete ps k) = filter (\<lambda>n. n \<noteq> k) (ownKeys ps)"
  by (induction ps) (auto simp: ownKeys_def)

lemma obj_get_obj_delete: "obj_get (obj_delete ps k) k' = (if k' = k then None else obj_get ps k')"
  by (induction ps) auto

section \<open>The single-field accessor\<close>

text \<open>
  C10. For every instance and every name, \<^verbatim>\<open>boundField(name)\<close> throws an
  \<^verbatim>\<open>Error\<close> (which is not a \<^verbatim>\<open>ValidationError\<close>) when the instance's field map has
  no own field of that name, and otherwise returns the bound-field view of the field held
  under that name; a view is only ever returned for a name of the field map.
\<close>

theorem boundField_unknown_throws:
  "(name \<notin> set (ownKeys (form_fields f)) \<longrightarrow>
      (\<exists>msg. boundField ut f name = Inl (OtherError msg))) \<and>
   (name \<in> set (ownKeys (form_fields f)) \<longrightarrow>
      (\<exists>fld. obj_get (form_fields f) name = Some fld \<and>
             boundField ut f name = Inr (BoundField ut f fld name))) \<and>
   (\<forall>bf. boundField ut f name = Inr bf \<longrightarrow>
      name \<in> set (ownKeys (form_fields f)) \<and> bf_name bf = name)"
proof -
  have unknown: "\<exists>msg. boundField ut f name = Inl (OtherError msg)"
    if "name \<notin> set (ownKeys (form_fields f))"
    using that by (simp add: boundField_def hasOwnProperty_iff)
  have known: "\<exists>fld. obj_get (form_fields f) name = Some fld \<and>
                     boundField ut f name = Inr (BoundField ut f fld name)"
    if "name \<in> set (ownKeys (form_fields f))"
  proof -
    from that obtain fld where "obj_get (form_fields f) name = Some fld"
      using obj_get_None_iff [of "form_fields f" name] by (cases "obj_get (form_fields f) name") auto
    with that show ?thesis
      by (simp add: boundField_def hasOwnProperty_iff)
  qed
  have only: "name \<in> set (ownKeys (form_fields f)) \<and> bf_name bf = name"
    if "boundField ut f name = Inr bf" for bf
  proof (cases "name \<in> set (ownKeys (form_fields f))")
    case True
    with known that show ?thesis by (auto simp: BoundField_def)
  next
    case False
    with unknown that show ?thesis by auto
  qed
  from unknown known only show ?thesis by blast
qed

theorem boundField_unknown_throws_witness:
  "(\<exists>msg. boundField exampleUtil (BaseForm personFields default_kwargs) ''zip'' = Inl (OtherError msg)) \<and>
   (\<exists>fld. obj_get (form_fields (BaseForm personFields default_kwargs)) ''age'' = Some fld \<and>
          boundField exampleUtil (BaseForm personFields default_kwargs) ''age''
            = Inr (BoundField exampleUtil (BaseForm personFields default_kwargs) fld ''age''))"
proof -
  have no: "''zip'' \<notin> set (ownKeys (form_fields (BaseForm personFields default_kwargs)))"
    by (simp add: BaseForm_def personFields_def ownKeys_def)
  have yes: "''age'' \<in> set (ownKeys (form_fields (BaseForm personFields default_kwargs)))"
    by (simp add: BaseForm_def personFields_def ownKeys_def)
  from boundField_unknown_throws [of "''zip''" "BaseForm personFields default_kwargs" exampleUtil] no
    boundField_unknown_throws [of "''age''" "BaseForm personFields default_kwargs" exampleUtil] yes
  show ?thesis by blast
qed

section \<open>Schema composition keeps declaration order\<close>










section \<open>Change detection\<close>

lemma fieldChanged_cong:
  "data f' = data f \<Longrightarrow> files f' = files f \<Longrightarrow> initial f' = initial f \<Longrightarrow> prefix f' = prefix f
   \<Longrightarrow> fieldChanged f' n fld = fieldChanged f n fld"
  by (simp add: fieldChanged_def u_rawValue_def addPrefix_def)

lemma changedData_step_eq:
  "changedData_step f nf =
     f\<lparr>u_changedData :=
         (if fieldChanged f (fst nf) (snd nf)
          then map_option (\<lambda>l. l @ [fst nf]) (u_changedData f)
          else u_changedData f),
       calls := calls f @ [HasChangedCall (fst nf)]\<rparr>"
  by (simp add: changedData_step_def fieldChanged_def Let_def logCall_def getDefault_def
      addInitialPrefix_def u_rawValue_def)

lemma foldl_changedData_step:
  "foldl changedData_step f fs =
     f\<lparr>u_changedData :=
         map_option (\<lambda>l. l @ map fst (filter (\<lambda>nf. fieldChanged f (fst nf) (snd nf)) fs))
           (u_changedData f),
       calls := calls f @ map (\<lambda>nf. HasChangedCall (fst nf)) fs\<rparr>"
proof (induction fs arbitrary: f)
  case Nil
  show ?case by (simp add: option.map_ident)
next
  case (Cons nf fs)
  have same: "fieldChanged (changedData_step f nf) n fld = fieldChanged f n fld" for n fld
    by (rule fieldChanged_cong) (simp_all add: changedData_step_eq)
  show ?case
    by (simp add: Cons.IH same) (simp add: changedData_step_eq option.map_comp comp_def)
qed

lemma changedData_eq:
  "changedData f =
     (case u_changedData f of
        Some l \<Rightarrow> (l, f)
      | None \<Rightarrow>
          (changedNames f,
           f\<lparr>u_changedData := Some (changedNames f),
             calls := calls f @ map HasChangedCall (ownKeys (form_fields f))\<rparr>))"
proof (cases "u_changedData f")
  case None
  have same: "fieldChanged (f\<lparr>u_changedData := Some []\<rparr>) n fld = fieldChanged f n fld" for n fld
    by (rule fieldChanged_cong) simp_all
  from None show ?thesis
    by (simp add: changedData_def foldl_changedData_step same changedNames_def ownKeys_def comp_def)
next
  case (Some l)
  then show ?thesis by (simp add: changedData_def)
qed

text \<open>
  C8. On an instance whose changed data has not been computed yet, in particular on a
  new instance, \<^verbatim>\<open>changedData()\<close> returns, in field declaration order, exactly the
  names of the fields whose change predicate answers true on the initial value (the
  instance's initial map first, then the field's own initial; read from the submitted
  data and files under the \<^verbatim>\<open>initial-\<close> name through the hidden widget when the field
  shows a hidden initial) and the submitted raw value; it asks every field once, in order.
\<close>

theorem changedData_changed_fields:
  "(u_changedData f = None \<longrightarrow>
      fst (changedData f) = map fst (filter (\<lambda>nf. fieldChanged f (fst nf) (snd nf)) (form_fields f)) \<and>
      calls (snd (changedData f)) = calls f @ map HasChangedCall (ownKeys (form_fields f))) \<and>
   fst (changedData (BaseForm baseFields kw)) =
     map fst (filter (\<lambda>nf. fieldChanged (BaseForm baseFields kw) (fst nf) (snd nf)) baseFields)"
proof -
  have fresh: "u_changedData (BaseForm baseFields kw) = None"
              "form_fields (BaseForm baseFields kw) = baseFields"
    by (simp_all add: BaseForm_def)
  show ?thesis
    by (simp add: changedData_eq [of f] changedData_eq [of "BaseForm baseFields kw"]
        fresh changedNames_def)
qed

theorem changedData_changed_fields_witness:
  "fst (changedData (BaseForm echoFields echoedPerson)) = [''name''] \<and>
   calls (snd (changedData (BaseForm echoFields echoedPerson)))
     = [HasChangedCall ''name'', HasChangedCall ''age''] \<and>
   fst (changedData (BaseForm personFields echoedPerson)) = []"
proof -
  have a: "map fst (filter (\<lambda>nf. fieldChanged (BaseForm echoFields echoedPerson) (fst nf) (snd nf))
             echoFields) = [''name'']"
    by code_simp
  have b: "map fst (filter (\<lambda>nf. fieldChanged (BaseForm personFields echoedPerson) (fst nf) (snd nf))
             personFields) = []"
    by code_simp
  have n: "u_changedData (BaseForm echoFields echoedPerson) = None"
    by (simp add: BaseForm_def)
  have c: "calls (BaseForm echoFields echoedPerson)
             @ map HasChangedCall (ownKeys (form_fields (BaseForm echoFields echoedPerson)))
           = [HasChangedCall ''name'', HasChangedCall ''age'']"
    by (simp add: BaseForm_def echoFields_def ownKeys_def)
  from changedData_changed_fields [of "BaseForm echoFields echoedPerson" echoFields echoedPerson] n
  have "fst (changedData (BaseForm echoFields echoedPerson)) =
          map fst (filter (\<lambda>nf. fieldChanged (BaseForm echoFields echoedPerson) (fst nf) (snd nf))
            echoFields)"
    and "calls (snd (changedData (BaseForm echoFields echoedPerson))) =
          calls (BaseForm echoFields echoedPerson)
            @ map HasChangedCall (ownKeys (form_fields (BaseForm echoFields echoedPerson)))"
    by blast+
  with a c have first: "fst (changedData (BaseForm echoFields echoedPerson)) = [''name'']"
    and log: "calls (snd (changedData (BaseForm echoFields echoedPerson)))
                = [HasChangedCall ''name'', HasChangedCall ''age'']"
    by simp_all
  from changedData_changed_fields [of "BaseForm personFields echoedPerson" personFields echoedPerson] b
  have second: "fst (changedData (BaseForm personFields echoedPerson)) = []"
    by simp
  from first log second show ?thesis
    by blast
qed

section \<open>One iteration of per-field cleaning\<close>

lemma cleanedNames_append: "cleanedNames (xs @ ys) = cleanedNames xs @ cleanedNames ys"
  by (induction xs rule: cleanedNames.induct) simp_all

lemma sameInput_refl: "sameInput f f"
  by (simp add: sameInput_def)

lemma sameInput_trans: "sameInput f g \<Longrightarrow> sameInput g h \<Longrightarrow> sameInput f h"
  by (simp add: sameInput_def)


lemma call_method_frame:
  "call_method pr hn f = (r, f1) \<Longrightarrow>
     sameInput f f1 \<and> u_changedData f1 = u_changedData f \<and> u_errors f1 = u_errors f \<and>
     cleanedData f1 = cleanedData f \<and> cleanedNames (calls f1) = cleanedNames (calls f)"
  by (auto simp: call_method_def logCall_def sameInput_def cleanedNames_append Let_def
      split: option.splits)

lemma runCustomClean_frame:
  assumes "runCustomClean pr hn n f = (r, f1)"
  shows "sameInput f f1 \<and> u_changedData f1 = u_changedData f \<and> u_errors f1 = u_errors f \<and>
         cleanedNames (calls f1) = cleanedNames (calls f)"
proof (cases "call_method pr hn f")
  case (Pair r0 f0)
  from call_method_frame [OF Pair] assms Pair show ?thesis
    by (auto simp: runCustomClean_def sameInput_def split: sum.splits)
qed

lemma runCustomClean_cleaned:
  assumes "runCustomClean pr hn n f = (r, f1)" and "cleanedData f = Some (Obj cd)"
  shows "\<exists>cd1. cleanedData f1 = Some (Obj cd1) \<and>
           (\<forall>k. k \<noteq> n \<longrightarrow> (k \<in> set (ownKeys cd1) \<longleftrightarrow> k \<in> set (ownKeys cd)))"
proof (cases "call_method pr hn f")
  case (Pair r0 f0)
  from call_method_frame [OF Pair] assms Pair show ?thesis
    by (auto simp: runCustomClean_def ownKeys_obj_set split: sum.splits)
qed

lemma tryCleanField_frame:
  assumes "tryCleanField pr f n fld val = (r, f1)"
  shows "sameInput f f1 \<and> u_changedData f1 = u_changedData f \<and> u_errors f1 = u_errors f \<and>
         cleanedNames (calls f1) = cleanedNames (calls f) @ [n]"
  using assms
  by (auto simp: tryCleanField_def Let_def logCall_def sameInput_def cleanedNames_append
      split: sum.splits option.splits if_splits dest!: runCustomClean_frame)

lemma tryCleanField_cleaned:
  assumes "tryCleanField pr f n fld val = (r, f1)" and "cleanedData f = Some (Obj cd)"
  shows "\<exists>cd1. cleanedData f1 = Some (Obj cd1) \<and>
           (\<forall>k. k \<noteq> n \<longrightarrow> (k \<in> set (ownKeys cd1) \<longleftrightarrow> k \<in> set (ownKeys cd)))"
proof -
  let ?f1 = "logCall (FieldClean n) f"
  have cd1: "cleanedData ?f1 = Some (Obj cd)"
    using assms(2) by (simp add: logCall_def)
  have hook: "\<exists>cd1. cleanedData f1 = Some (Obj cd1) \<and>
           (\<forall>k. k \<noteq> n \<longrightarrow> (k \<in> set (ownKeys cd1) \<longleftrightarrow> k \<in> set (ownKeys cd)))"
    if "runCustomClean pr hn n (?f1\<lparr>cleanedData := Some (Obj (obj_set cd n v))\<rparr>) = (r, f1)" for hn v
    using runCustomClean_cleaned [OF that, of "obj_set cd n v"]
    by (auto simp: ownKeys_obj_set split: if_splits)
  from assms cd1 show ?thesis
    by (auto simp: tryCleanField_def Let_def ownKeys_obj_set
        split: sum.splits option.splits if_splits dest: hook)
qed

lemma catchCleanField_frame:
  "catchCleanField f n e = (r, f1) \<Longrightarrow>
     sameInput f f1 \<and> u_changedData f1 = u_changedData f \<and> calls f1 = calls f"
  by (auto simp: catchCleanField_def Let_def sameInput_def
      split: exn.splits option.splits sum.splits if_splits)

lemma catchCleanField_Other:
  "catchCleanField f n (OtherError x) = (Inl (OtherError x), f)"
  by (simp add: catchCleanField_def)

lemma catchCleanField_ValidationError:
  assumes "cleanedData f = Some (Obj cd)" and "u_errors f = Some eo"
  shows "catchCleanField f n (ValidationError ms) =
           (Inr (),
            f\<lparr>u_errors := Some (obj_set eo n ms),
              cleanedData :=
                Some (Obj (if obj_get cd n = None \<or> obj_get cd n = Some Undefined then cd
                           else obj_delete cd n))\<rparr>)"
  using assms
  by (cases "obj_get cd n") (simp_all add: catchCleanField_def errorObject_set_def)

lemma cleanField_frame:
  assumes "cleanField pr f (n, fld) = (r, f1)"
  shows "sameInput f f1 \<and> u_changedData f1 = u_changedData f \<and>
         cleanedNames (calls f1) = cleanedNames (calls f) @ [n]"
proof (cases "tryCleanField pr f n fld (widget_valueFromData fld (data f) (files f) (addPrefix f n))")
  case (Pair r0 f0)
  note t = tryCleanField_frame [OF Pair]
  show ?thesis
  proof (cases r0)
    case (Inl e)
    with assms Pair have "catchCleanField f0 n e = (r, f1)"
      by (simp add: cleanField_def)
    from catchCleanField_frame [OF this] t show ?thesis
      by (auto intro: sameInput_trans)
  next
    case (Inr u)
    with assms Pair t show ?thesis
      by (simp add: cleanField_def)
  qed
qed

lemma cleanField_state:
  assumes "cleanField pr f (n, fld) = (r, f1)"
    and "cleanedData f = Some (Obj cd)" and "u_errors f = Some eo"
  shows "\<exists>cd1 eo1. cleanedData f1 = Some (Obj cd1) \<and> u_errors f1 = Some eo1 \<and>
           (\<forall>k. k \<noteq> n \<longrightarrow> obj_get eo1 k = obj_get eo k \<and>
                 (k \<in> set (ownKeys cd1) \<longleftrightarrow> k \<in> set (ownKeys cd))) \<and>
           (\<forall>e. r = Inl e \<longrightarrow> \<not> isValidationError e)"
proof (cases "tryCleanField pr f n fld (widget_valueFromData fld (data f) (files f) (addPrefix f n))")
  case (Pair r0 f0)
  from tryCleanField_frame [OF Pair] assms(3) have eo0: "u_errors f0 = Some eo"
    by simp
  from tryCleanField_cleaned [OF Pair assms(2)] obtain cd0 where
    cd0: "cleanedData f0 = Some (Obj cd0)"
      "\<forall>k. k \<noteq> n \<longrightarrow> (k \<in> set (ownKeys cd0) \<longleftrightarrow> k \<in> set (ownKeys cd))"
    by blast
  show ?thesis
  proof (cases r0)
    case (Inr u)
    with assms(1) Pair eo0 cd0 show ?thesis
      by (auto simp: cleanField_def)
  next
    case (Inl e)
    with assms(1) Pair have c: "catchCleanField f0 n e = (r, f1)"
      by (simp add: cleanField_def)
    show ?thesis
    proof (cases e)
      case (OtherError x)
      with c eo0 cd0 show ?thesis
        by (auto simp: catchCleanField_Other)
    next
      case (ValidationError ms)
      with c eo0 cd0 show ?thesis
        by (auto simp: catchCleanField_ValidationError [OF cd0(1) eo0] obj_get_obj_set
            ownKeys_obj_delete)
    qed
  qed
qed






section \<open>The loop of per-field cleaning\<close>


lemma cleanFields_loop_frame:
  "cleanFields_loop pr f fs = (r, f') \<Longrightarrow> sameInput f f' \<and> u_changedData f' = u_changedData f"
proof (induction fs arbitrary: f)
  case Nil
  then show ?case by (simp add: sameInput_refl)
next
  case (Cons nf fs)
  obtain n fld where nf: "nf = (n, fld)" by (cases nf)
  obtain r1 f1 where s: "cleanField pr f (n, fld) = (r1, f1)" by (cases "cleanField pr f (n, fld)")
  note fr = cleanField_frame [OF s]
  show ?case
  proof (cases r1)
    case (Inl e)
    with Cons.prems nf s fr show ?thesis by simp
  next
    case (Inr u)
    with Cons.prems nf s have "cleanFields_loop pr f1 fs = (r, f')" by simp
    from Cons.IH [OF this] fr show ?thesis
      by (auto intro: sameInput_trans)
  qed
qed

lemma cleanFields_loop_state:
  assumes "cleanFields_loop pr f fs = (r, f')"
    and "cleanedData f = Some (Obj cd)" and "u_errors f = Some eo"
  shows "\<exists>cd' eo'. cleanedData f' = Some (Obj cd') \<and> u_errors f' = Some eo' \<and>
           (\<forall>k. k \<notin> set (map fst fs) \<longrightarrow> obj_get eo' k = obj_get eo k \<and>
                 (k \<in> set (ownKeys cd') \<longleftrightarrow> k \<in> set (ownKeys cd)))"
  using assms
proof (induction fs arbitrary: f cd eo)
  case Nil
  then show ?case by auto
next
  case (Cons nf fs)
  obtain n fld where nf: "nf = (n, fld)" by (cases nf)
  obtain r1 f1 where s: "cleanField pr f (n, fld) = (r1, f1)" by (cases "cleanField pr f (n, fld)")
  from cleanField_state [OF s Cons.prems(2) Cons.prems(3)] obtain cd1 eo1 where
    st: "cleanedData f1 = Some (Obj cd1)" "u_errors f1 = Some eo1"
      "\<forall>k. k \<noteq> n \<longrightarrow> obj_get eo1 k = obj_get eo k \<and>
                 (k \<in> set (ownKeys cd1) \<longleftrightarrow> k \<in> set (ownKeys cd))"
    by blast
  show ?case
  proof (cases r1)
    case (Inl e)
    with Cons.prems(1) nf s have "f' = f1" by simp
    with st nf show ?thesis by auto
  next
    case (Inr u)
    with Cons.prems(1) nf s have "cleanFields_loop pr f1 fs = (r, f')" by simp
    from Cons.IH [OF this st(1) st(2)] st(3) nf show ?thesis
      by auto
  qed
qed




section \<open>Per-field cleaning records validation errors and lets the rest through\<close>



section \<open>Custom hooks of a field\<close>

text \<open>
  C6. For a field that cleans successfully: when the instance has a function under
  \<^verbatim>\<open>'clean_' + name\<close>, that hook is the only one called (whether or not the
  camel-cased one exists) and what it returns becomes the field's entry in
  \<^verbatim>\<open>cleanedData\<close>; otherwise, when it has a function under \<^verbatim>\<open>'clean'\<close> followed by
  the capitalized name, that one is called and its return value becomes the entry;
  otherwise the entry is the field's cleaned value. The entry is the return value
  whatever it is, \<^verbatim>\<open>undefined\<close> included.
\<close>

theorem custom_clean_dispatch:
  assumes "fieldCleanResult f n fld = Inr v" and "cleanedData f = Some (Obj cd)"
  shows
    "(\<forall>h w. this_function pr (cleanUnderscoreName n) = Some h \<and>
            h (hookState f cd n v (cleanUnderscoreName n)) = Inr w \<longrightarrow>
        cleanField pr f (n, fld) =
          (Inr (),
           f\<lparr>calls := calls f @ [FieldClean n, HookCall (cleanUnderscoreName n)],
             cleanedData := Some (Obj (obj_set cd n w))\<rparr>)) \<and>
     (\<forall>h w. this_function pr (cleanUnderscoreName n) = None \<and>
            this_function pr (cleanCamelName n) = Some h \<and>
            h (hookState f cd n v (cleanCamelName n)) = Inr w \<longrightarrow>
        cleanField pr f (n, fld) =
          (Inr (),
           f\<lparr>calls := calls f @ [FieldClean n, HookCall (cleanCamelName n)],
             cleanedData := Some (Obj (obj_set cd n w))\<rparr>)) \<and>
     (this_function pr (cleanUnderscoreName n) = None \<and>
      this_function pr (cleanCamelName n) = None \<longrightarrow>
        cleanField pr f (n, fld) =
          (Inr (),
           f\<lparr>calls := calls f @ [FieldClean n],
             cleanedData := Some (Obj (obj_set cd n v))\<rparr>)) \<and>
     (\<forall>w. obj_get (obj_set cd n w) n = Some w) \<and>
     cleanUnderscoreName n = ''clean_'' @ n"
proof -
  let ?val = "widget_valueFromData fld (data f) (files f) (addPrefix f n)"
  let ?f2 = "f\<lparr>calls := calls f @ [FieldClean n], cleanedData := Some (Obj (obj_set cd n v))\<rparr>"
  have t: "tryCleanField pr f n fld ?val =
             (case this_function pr (cleanUnderscoreName n) of
                Some h \<Rightarrow> runCustomClean pr (cleanUnderscoreName n) n ?f2
              | None \<Rightarrow>
                  (case this_function pr (cleanCamelName n) of
                     Some h \<Rightarrow> runCustomClean pr (cleanCamelName n) n ?f2
                   | None \<Rightarrow> (Inr (), ?f2)))"
    using assms
    by (auto simp: tryCleanField_def fieldCleanResult_def u_rawValue_def Let_def logCall_def
        split: if_splits)
  have run: "runCustomClean pr hn n ?f2 =
               (Inr (),
                f\<lparr>calls := calls f @ [FieldClean n, HookCall hn],
                  cleanedData := Some (Obj (obj_set cd n w))\<rparr>)"
    if "this_function pr hn = Some h" "h (hookState f cd n v hn) = Inr w" for hn h w
  proof -
    have st: "logCall (HookCall hn) ?f2 = hookState f cd n v hn"
      by (simp add: logCall_def hookState_def)
    have cdh: "cleanedData (hookState f cd n v hn) = Some (Obj (obj_set cd n v))"
      by (simp add: hookState_def)
    have fin: "(hookState f cd n v hn)\<lparr>cleanedData := Some (Obj (obj_set cd n w))\<rparr> =
                 f\<lparr>calls := calls f @ [FieldClean n, HookCall hn],
                   cleanedData := Some (Obj (obj_set cd n w))\<rparr>"
      by (simp add: hookState_def)
    from that show ?thesis
      by (simp add: runCustomClean_def call_method_def Let_def st cdh obj_set_twice fin)
  qed
  show ?thesis
    by (auto simp: cleanField_def t run obj_get_obj_set cleanUnderscoreName_def)
qed

theorem custom_clean_dispatch_witness:
  "fst (cleanField bothHooks (startCleaning (BaseForm personFields validPerson)) (''name'', nameField))
     = Inr () \<and>
   cleanedData (snd (cleanField bothHooks (startCleaning (BaseForm personFields validPerson))
                       (''name'', nameField)))
     = Some (Obj [(''name'', Undefined)]) \<and>
   calls (snd (cleanField bothHooks (startCleaning (BaseForm personFields validPerson))
                 (''name'', nameField)))
     = [FieldClean ''name'', HookCall ''clean_name''] \<and>
   cleanedData (snd (cleanField camelHook (startCleaning (BaseForm personFields validPerson))
                       (''name'', nameField)))
     = Some (Obj [(''name'', Str ''camel'')]) \<and>
   calls (snd (cleanField camelHook (startCleaning (BaseForm personFields validPerson))
                 (''name'', nameField)))
     = [FieldClean ''name'', HookCall ''cleanName''] \<and>
   cleanedData (snd (cleanField noProto (startCleaning (BaseForm personFields validPerson))
                       (''name'', nameField)))
     = Some (Obj [(''name'', Str ''Ada'')])"
proof -
  let ?F = "startCleaning (BaseForm personFields validPerson)"
  have ok: "fieldCleanResult ?F ''name'' nameField = Inr (Str ''Ada'')"
    by code_simp
  have cd: "cleanedData ?F = Some (Obj [])"
    by (simp add: startCleaning_def)
  have log: "calls ?F = []"
    by (simp add: startCleaning_def BaseForm_def)
  have camel: "cleanCamelName ''name'' = ''cleanName''"
    by code_simp
  have under: "cleanUnderscoreName ''name'' = ''clean_name''"
    by (simp add: cleanUnderscoreName_def)
  have b1: "this_function bothHooks (cleanUnderscoreName ''name'') = Some (\<lambda>f. Inr Undefined)"
    by (simp add: under this_function_def this_member_def bothHooks_def)
  have c1: "this_function camelHook (cleanUnderscoreName ''name'') = None"
    by (simp add: under this_function_def this_member_def camelHook_def)
  have c2: "this_function camelHook (cleanCamelName ''name'') = Some (\<lambda>f. Inr (Str ''camel''))"
    by (simp add: camel this_function_def this_member_def camelHook_def)
  have n1: "this_function noProto (cleanUnderscoreName ''name'') = None"
    by (simp add: under this_function_def this_member_def noProto_def)
  have n2: "this_function noProto (cleanCamelName ''name'') = None"
    by (simp add: camel this_function_def this_member_def noProto_def)
  from custom_clean_dispatch [OF ok cd, of bothHooks] b1
  have r1: "cleanField bothHooks ?F (''name'', nameField) =
          (Inr (),
           ?F\<lparr>calls := calls ?F @ [FieldClean ''name'', HookCall (cleanUnderscoreName ''name'')],
             cleanedData := Some (Obj (obj_set [] ''name'' Undefined))\<rparr>)"
    by blast
  from custom_clean_dispatch [OF ok cd, of camelHook] c1 c2
  have r2: "cleanField camelHook ?F (''name'', nameField) =
          (Inr (),
           ?F\<lparr>calls := calls ?F @ [FieldClean ''name'', HookCall (cleanCamelName ''name'')],
             cleanedData := Some (Obj (obj_set [] ''name'' (Str ''camel'')))\<rparr>)"
    by blast
  from custom_clean_dispatch [OF ok cd, of noProto] n1 n2
  have r3: "cleanField noProto ?F (''name'', nameField) =
          (Inr (),
           ?F\<lparr>calls := calls ?F @ [FieldClean ''name''],
             cleanedData := Some (Obj (obj_set [] ''name'' (Str ''Ada'')))\<rparr>)"
    by blast
  show ?thesis
    by (simp add: r1 r2 r3 log under camel)
qed

section \<open>Facts about \<^verbatim>\<open>fullClean\<close>\<close>

lemma cleanedNames_HasChanged: "cleanedNames (map HasChangedCall ns) = []"
  by (induction ns) simp_all

lemma changedNames_cong:
  "sameInput f f' \<Longrightarrow> changedNames f' = changedNames f"
proof -
  assume s: "sameInput f f'"
  then have "fieldChanged f' n fld = fieldChanged f n fld" for n fld
    by (intro fieldChanged_cong) (simp_all add: sameInput_def)
  with s show ?thesis
    by (simp add: changedNames_def sameInput_def)
qed

lemma changedData_frame:
  "sameInput f (snd (changedData f)) \<and>
   u_errors (snd (changedData f)) = u_errors f \<and>
   cleanedData (snd (changedData f)) = cleanedData f \<and>
   cleanedNames (calls (snd (changedData f))) = cleanedNames (calls f) \<and>
   u_changedData (snd (changedData f)) = Some (fst (changedData f))"
  by (cases "u_changedData f")
    (simp_all add: changedData_eq sameInput_def cleanedNames_append cleanedNames_HasChanged)

lemma changedData_memo:
  "u_changedData f = Some l \<Longrightarrow> changedData f = (l, f)"
  by (simp add: changedData_eq)

lemma startCleaning_sel:
  "isBound (startCleaning f) = isBound f"
  "emptyPermitted (startCleaning f) = emptyPermitted f"
  "form_fields (startCleaning f) = form_fields f"
  "u_changedData (startCleaning f) = u_changedData f"
  "calls (startCleaning f) = calls f"
  "u_errors (startCleaning f) = Some ErrorObject"
  "cleanedData (startCleaning f) = Some (Obj [])"
  by (simp_all add: startCleaning_def)

lemma changedData_startCleaning:
  "changedData (startCleaning f) =
     (fst (changedData f), startCleaning (snd (changedData f)))"
proof (cases "u_changedData f")
  case None
  have "sameInput f (startCleaning f)"
    by (simp add: sameInput_def startCleaning_def)
  then have n: "changedNames (startCleaning f) = changedNames f"
    by (rule changedNames_cong)
  have upd: "(startCleaning f)\<lparr>u_changedData := x, calls := y\<rparr> =
             startCleaning (f\<lparr>u_changedData := x, calls := y\<rparr>)" for x y
    by (simp add: startCleaning_def)
  from None show ?thesis
    by (simp add: changedData_eq [of f] changedData_eq [of "startCleaning f"] n
        startCleaning_sel upd)
next
  case (Some l)
  then show ?thesis
    by (simp add: changedData_eq [of f] changedData_eq [of "startCleaning f"] startCleaning_sel)
qed

lemma hasChanged_eq: "hasChanged f = (fst (changedData f) \<noteq> [], snd (changedData f))"
  by (simp add: hasChanged_def Let_def)

lemma u_cleanForm_frame:
  "u_cleanForm pr f = (r, f1) \<Longrightarrow>
     sameInput f f1 \<and> u_changedData f1 = u_changedData f \<and>
     cleanedNames (calls f1) = cleanedNames (calls f)"
  by (cases "call_method pr ''clean'' f")
    (auto simp: u_cleanForm_def sameInput_def
      split: sum.splits exn.splits option.splits dest!: call_method_frame)

lemma u_cleanForm_state:
  assumes "u_cleanForm pr f = (Inr (), f1)"
    and "cleanedData f = Some v" and "u_errors f = Some eo"
  shows "cleanedData f1 \<noteq> None \<and> u_errors f1 \<noteq> None"
  using assms
  by (cases "call_method pr ''clean'' f")
    (auto simp: u_cleanForm_def split: sum.splits exn.splits option.splits dest!: call_method_frame)

lemma u_postClean_frame:
  "u_postClean pr f = (r, f1) \<Longrightarrow>
     sameInput f f1 \<and> u_changedData f1 = u_changedData f \<and> u_errors f1 = u_errors f \<and>
     cleanedData f1 = cleanedData f \<and> cleanedNames (calls f1) = cleanedNames (calls f)"
  by (cases "call_method pr ''_postClean'' f")
    (auto simp: u_postClean_def split: sum.splits dest!: call_method_frame)

lemma fullClean_steps_frame:
  assumes "fullClean_steps pr f = (r, f')"
  shows "sameInput f f' \<and> u_changedData f' = u_changedData f"
proof -
  obtain r1 f1 where s1: "u_cleanFields pr f = (r1, f1)" by (cases "u_cleanFields pr f")
  then have "cleanFields_loop pr f (form_fields f) = (r1, f1)" by (simp add: u_cleanFields_def)
  note a1 = cleanFields_loop_frame [OF this]
  obtain r2 f2 where s2: "u_cleanForm pr f1 = (r2, f2)" by (cases "u_cleanForm pr f1")
  note a2 = u_cleanForm_frame [OF s2]
  obtain r3 f3 where s3: "u_postClean pr f2 = (r3, f3)" by (cases "u_postClean pr f2")
  note a3 = u_postClean_frame [OF s3]
  from assms s1 s2 s3 have "f' = f1 \<or> f' = f2 \<or> f' = f3 \<or> f' = f3\<lparr>cleanedData := None\<rparr>"
    by (auto simp: fullClean_steps_def split: sum.splits option.splits if_splits)
  with a1 a2 a3 show ?thesis
    by (auto simp: sameInput_def)
qed

lemma fullClean_unbound:
  "\<not> isBound f \<Longrightarrow> fullClean pr f = (Inr (), f\<lparr>u_errors := Some ErrorObject\<rparr>)"
  by (simp add: fullClean_def)

lemma fullClean_short_circuit:
  assumes "isBound f" and "emptyPermitted f" and "fst (changedData f) = []"
  shows "fullClean pr f = (Inr (), startCleaning (snd (changedData f)))"
proof -
  have "f\<lparr>u_errors := Some ErrorObject, cleanedData := Some (Obj [])\<rparr> = startCleaning f"
    by (simp add: startCleaning_def)
  with assms show ?thesis
    by (simp add: fullClean_def Let_def hasChanged_eq changedData_startCleaning
        startCleaning_sel)
qed

lemma fullClean_bound:
  assumes "isBound f" and "\<not> (emptyPermitted f \<and> fst (changedData f) = [])"
  shows "fullClean pr f = fullClean_steps pr (stepsStart f)"
proof -
  have "f\<lparr>u_errors := Some ErrorObject, cleanedData := Some (Obj [])\<rparr> = startCleaning f"
    by (simp add: startCleaning_def)
  with assms show ?thesis
    by (auto simp: fullClean_def Let_def hasChanged_eq changedData_startCleaning stepsStart_def
        startCleaning_sel)
qed

lemma stepsStart_state:
  "cleanedData (stepsStart f) = Some (Obj []) \<and> u_errors (stepsStart f) = Some ErrorObject \<and>
   sameInput f (stepsStart f) \<and> cleanedNames (calls (stepsStart f)) = cleanedNames (calls f)"
proof -
  have "sameInput f (startCleaning (snd (changedData f)))"
    using changedData_frame [of f] by (simp add: sameInput_def startCleaning_def)
  moreover have "cleanedNames (calls (startCleaning (snd (changedData f)))) = cleanedNames (calls f)"
    using changedData_frame [of f] by (simp add: startCleaning_def)
  ultimately show ?thesis
    by (auto simp: stepsStart_def hasChanged_eq changedData_startCleaning)
      (simp_all add: startCleaning_def sameInput_def)
qed

lemma fullClean_frame:
  assumes "fullClean pr f = (r, f')"
  shows "sameInput f f' \<and> u_errors f' \<noteq> None \<and>
         (\<forall>l. u_changedData f = Some l \<longrightarrow> u_changedData f' = Some l)"
proof (cases "isBound f")
  case False
  with assms show ?thesis
    by (auto simp: fullClean_unbound sameInput_def)
next
  case True
  show ?thesis
  proof (cases "emptyPermitted f \<and> fst (changedData f) = []")
    case sc: True
    with True assms have "f' = startCleaning (snd (changedData f))"
      by (simp add: fullClean_short_circuit)
    with changedData_frame [of f] show ?thesis
      by (auto simp: startCleaning_def sameInput_def changedData_memo)
  next
    case False
    with True assms have st: "fullClean_steps pr (stepsStart f) = (r, f')"
      by (simp add: fullClean_bound)
    obtain r1 f1 where s1: "u_cleanFields pr (stepsStart f) = (r1, f1)"
      by (cases "u_cleanFields pr (stepsStart f)")
    then have l1: "cleanFields_loop pr (stepsStart f) (form_fields (stepsStart f)) = (r1, f1)"
      by (simp add: u_cleanFields_def)
    from stepsStart_state [of f] have
      "cleanedData (stepsStart f) = Some (Obj [])" "u_errors (stepsStart f) = Some ErrorObject"
      by simp_all
    from cleanFields_loop_state [OF l1 this]
    have e1: "u_errors f1 \<noteq> None" by auto
    have errs: "u_errors f' \<noteq> None"
    proof -
      obtain r2 f2 where s2: "u_cleanForm pr f1 = (r2, f2)" by (cases "u_cleanForm pr f1")
      with e1 have e2: "u_errors f2 \<noteq> None"
        by (cases "call_method pr ''clean'' f1")
          (auto simp: u_cleanForm_def split: sum.splits exn.splits option.splits
            dest!: call_method_frame)
      obtain r3 f3 where s3: "u_postClean pr f2 = (r3, f3)" by (cases "u_postClean pr f2")
      from u_postClean_frame [OF s3] e2 have e3: "u_errors f3 \<noteq> None" by simp
      from st s1 s2 s3 have "f' = f1 \<or> f' = f2 \<or> f' = f3 \<or> f' = f3\<lparr>cleanedData := None\<rparr>"
        by (auto simp: fullClean_steps_def split: sum.splits option.splits if_splits)
      with e1 e2 e3 show ?thesis by auto
    qed
    have memo: "u_changedData (stepsStart f) = Some l" if "u_changedData f = Some l" for l
      using that
      by (simp add: stepsStart_def hasChanged_eq changedData_startCleaning changedData_memo)
        (simp add: startCleaning_def)
    from fullClean_steps_frame [OF st] stepsStart_state [of f] errs memo show ?thesis
      by (auto intro: sameInput_trans)
  qed
qed

section \<open>Cleaned data exists iff validation succeeded\<close>

text \<open>
  C4. When \<^verbatim>\<open>fullClean\<close> has run to its end on a bound instance, the instance has an
  Error Report, and it has the \<^verbatim>\<open>cleanedData\<close> property (holding whatever the
  form-wide hook returned) if and only if the report is not populated, that is, has no
  key; with a populated report the property has been deleted.
\<close>

theorem cleanedData_iff_not_populated:
  assumes "isBound f" and "fullClean pr f = (Inr (), f')"
  shows "\<exists>eo. u_errors f' = Some eo \<and> (cleanedData f' \<noteq> None \<longleftrightarrow> \<not> isPopulated eo) \<and>
              (isPopulated eo \<longleftrightarrow> ownKeys eo \<noteq> [])"
proof (cases "emptyPermitted f \<and> fst (changedData f) = []")
  case True
  with assms have "f' = startCleaning (snd (changedData f))"
    by (simp add: fullClean_short_circuit)
  then show ?thesis
    by (simp add: startCleaning_sel isPopulated_def ErrorObject_def ownKeys_def)
next
  case False
  with assms have st: "fullClean_steps pr (stepsStart f) = (Inr (), f')"
    by (simp add: fullClean_bound)
  obtain r1 f1 where s1: "u_cleanFields pr (stepsStart f) = (r1, f1)"
    by (cases "u_cleanFields pr (stepsStart f)")
  obtain r2 f2 where s2: "u_cleanForm pr f1 = (r2, f2)"
    by (cases "u_cleanForm pr f1")
  obtain r3 f3 where s3: "u_postClean pr f2 = (r3, f3)"
    by (cases "u_postClean pr f2")
  from st s1 s2 s3 have r: "r1 = Inr ()" "r2 = Inr ()" "r3 = Inr ()"
    by (auto simp: fullClean_steps_def split: sum.splits)
  from s1 have l1: "cleanFields_loop pr (stepsStart f) (form_fields (stepsStart f)) = (r1, f1)"
    by (simp add: u_cleanFields_def)
  from stepsStart_state [of f] have
    "cleanedData (stepsStart f) = Some (Obj [])" "u_errors (stepsStart f) = Some ErrorObject"
    by simp_all
  from cleanFields_loop_state [OF l1 this] obtain cd1 eo1 where
    "cleanedData f1 = Some (Obj cd1)" "u_errors f1 = Some eo1"
    by blast
  with u_cleanForm_state [of pr f1 f2 "Obj cd1" eo1] s2 r(2)
  have "cleanedData f2 \<noteq> None" "u_errors f2 \<noteq> None"
    by simp_all
  with u_postClean_frame [OF s3] obtain eo3 where
    f3: "cleanedData f3 \<noteq> None" "u_errors f3 = Some eo3"
    by auto
  from st s1 s2 s3 r f3 have
    "f' = (if isPopulated eo3 then f3\<lparr>cleanedData := None\<rparr> else f3)"
    by (auto simp: fullClean_steps_def split: if_splits)
  with f3 show ?thesis
    by (auto simp: isPopulated_def)
qed

theorem cleanedData_iff_not_populated_witness:
  "fst (fullClean noProto (BaseForm personFields invalidPerson)) = Inr () \<and>
   u_errors (snd (fullClean noProto (BaseForm personFields invalidPerson)))
     = Some [(''name'', [''This field is required.''])] \<and>
   cleanedData (snd (fullClean noProto (BaseForm personFields invalidPerson))) = None \<and>
   fst (fullClean noProto (BaseForm personFields validPerson)) = Inr () \<and>
   u_errors (snd (fullClean noProto (BaseForm personFields validPerson))) = Some [] \<and>
   cleanedData (snd (fullClean noProto (BaseForm personFields validPerson))) \<noteq> None"
proof -
  let ?F = "BaseForm personFields invalidPerson"
  let ?G = "BaseForm personFields validPerson"
  have bF: "isBound ?F" and bG: "isBound ?G"
    by (simp_all add: BaseForm_def invalidPerson_def validPerson_def)
  have fF: "fst (fullClean noProto ?F) = Inr ()" and fG: "fst (fullClean noProto ?G) = Inr ()"
    by code_simp+
  then have rF: "fullClean noProto ?F = (Inr (), snd (fullClean noProto ?F))"
    and rG: "fullClean noProto ?G = (Inr (), snd (fullClean noProto ?G))"
    by (simp_all add: prod_eq_iff)
  have eF: "u_errors (snd (fullClean noProto ?F)) = Some [(''name'', [''This field is required.''])]"
    by code_simp
  have eG: "u_errors (snd (fullClean noProto ?G)) = Some []"
    by code_simp
  from cleanedData_iff_not_populated [OF bF rF] eF
  have cF: "cleanedData (snd (fullClean noProto ?F)) = None"
    by (auto simp: isPopulated_def ownKeys_def)
  from cleanedData_iff_not_populated [OF bG rG] eG
  have cG: "cleanedData (snd (fullClean noProto ?G)) \<noteq> None"
    by (auto simp: isPopulated_def ownKeys_def)
  from fF eF cF fG eG cG show ?thesis
    by blast
qed

section \<open>A form that is permitted to be empty\<close>

text \<open>
  C5. On a bound instance that is permitted to be empty and whose change detector
  reports no changed field, \<^verbatim>\<open>fullClean\<close> returns after the change detection: the
  \<^verbatim>\<open>clean\<close> of no field and no hook is called, the Error Report is empty,
  \<^verbatim>\<open>cleanedData\<close> is the empty object, and \<^verbatim>\<open>isValid()\<close> answers true, before and
  after the run, whatever the fields would make of the data.
\<close>

theorem emptyPermitted_short_circuit:
  assumes "isBound f" and "emptyPermitted f" and "fst (changedData f) = []"
  shows "fullClean pr f = (Inr (), startCleaning (snd (changedData f))) \<and>
         cleanedData (snd (fullClean pr f)) = Some (Obj []) \<and>
         u_errors (snd (fullClean pr f)) = Some ErrorObject \<and>
         calls (snd (fullClean pr f)) = calls (snd (changedData f)) \<and>
         cleanedNames (calls (snd (fullClean pr f))) = cleanedNames (calls f) \<and>
         isValid pr (snd (fullClean pr f)) = (Inr True, snd (fullClean pr f)) \<and>
         (u_errors f = None \<longrightarrow> isValid pr f = (Inr True, snd (fullClean pr f)))"
proof -
  let ?f' = "startCleaning (snd (changedData f))"
  have fc: "fullClean pr f = (Inr (), ?f')"
    using assms by (rule fullClean_short_circuit)
  have bound': "isBound ?f'"
    using assms(1) changedData_frame [of f] by (simp add: startCleaning_sel sameInput_def)
  have v1: "isValid pr ?f' = (Inr True, ?f')"
    using bound'
    by (simp add: isValid_def errors_def startCleaning_sel isPopulated_def ErrorObject_def ownKeys_def)
  have v2: "isValid pr f = (Inr True, ?f')" if "u_errors f = None"
    using that assms(1) fc
    by (simp add: isValid_def errors_def startCleaning_sel isPopulated_def ErrorObject_def ownKeys_def)
  from fc v1 v2 changedData_frame [of f] show ?thesis
    by (simp add: startCleaning_sel)
qed

theorem emptyPermitted_short_circuit_witness:
  "fieldCleanResult (BaseForm personFields blankPerson) ''name'' nameField
     = Inl (ValidationError [''This field is required.'']) \<and>
   isValid noProto (BaseForm personFields blankPerson)
     = (Inr True, snd (fullClean noProto (BaseForm personFields blankPerson))) \<and>
   cleanedData (snd (fullClean noProto (BaseForm personFields blankPerson))) = Some (Obj []) \<and>
   cleanedNames (calls (snd (fullClean noProto (BaseForm personFields blankPerson)))) = []"
proof -
  let ?F = "BaseForm personFields blankPerson"
  have b: "isBound ?F" and e: "emptyPermitted ?F" and n: "u_errors ?F = None"
    and l: "cleanedNames (calls ?F) = []"
    by (simp_all add: BaseForm_def blankPerson_def)
  have c: "fst (changedData ?F) = []"
    by code_simp
  have v: "fieldCleanResult ?F ''name'' nameField = Inl (ValidationError [''This field is required.''])"
    by code_simp
  from emptyPermitted_short_circuit [OF b e c, of noProto] n have
    "isValid noProto ?F = (Inr True, snd (fullClean noProto ?F))"
    "cleanedData (snd (fullClean noProto ?F)) = Some (Obj [])"
    "cleanedNames (calls (snd (fullClean noProto ?F))) = cleanedNames (calls ?F)"
    by blast+
  with l v show ?thesis
    by simp
qed

section \<open>Form-wide cleaning\<close>

lemma isPopulated_obj_set: "isPopulated (obj_set eo k ms)"
  by (cases eo) (auto simp: isPopulated_def ownKeys_def)

text \<open>
  C3. In a \<^verbatim>\<open>fullClean\<close> of a bound instance that reaches the form-wide hook: when
  \<^verbatim>\<open>clean()\<close> raises a \<^verbatim>\<open>ValidationError\<close>, its messages are stored in the Error
  Report under the key \<^verbatim>\<open>__all__\<close> and under no other key, and when \<^verbatim>\<open>fullClean\<close>
  returns (as it does unless \<^verbatim>\<open>_postClean\<close> is overridden) \<^verbatim>\<open>cleanedData\<close> is
  absent; when \<^verbatim>\<open>clean()\<close> raises anything else, \<^verbatim>\<open>fullClean\<close> throws that value
  and the instance is as the hook found it.
\<close>

theorem cleanForm_non_field_errors:
  assumes "isBound f" and "\<not> (emptyPermitted f \<and> fst (changedData f) = [])"
    and "u_cleanFields pr (stepsStart f) = (Inr (), g)"
    and "this_function pr ''clean'' = Some h"
  shows
    "(\<forall>ms. h (logCall (HookCall ''clean'') g) = Inl (ValidationError ms) \<longrightarrow>
        (\<exists>eo. u_errors g = Some eo \<and>
           u_cleanForm pr g =
             (Inr (),
              g\<lparr>calls := calls g @ [HookCall ''clean''],
                u_errors := Some (obj_set eo ''__all__'' ms)\<rparr>) \<and>
           obj_get (obj_set eo ''__all__'' ms) ''__all__'' = Some ms \<and>
           (\<forall>k. k \<noteq> ''__all__'' \<longrightarrow> obj_get (obj_set eo ''__all__'' ms) k = obj_get eo k)) \<and>
        (\<forall>f'. fullClean pr f = (Inr (), f') \<longrightarrow>
           cleanedData f' = None \<and>
           (\<exists>eo'. u_errors f' = Some eo' \<and> errorObject_get eo' ''__all__'' = Some ms)) \<and>
        (pr ''_postClean'' = None \<longrightarrow> fst (fullClean pr f) = Inr ())) \<and>
     (\<forall>x. h (logCall (HookCall ''clean'') g) = Inl (OtherError x) \<longrightarrow>
        fullClean pr f = (Inl (OtherError x), logCall (HookCall ''clean'') g))"
proof -
  from assms(3) have l: "cleanFields_loop pr (stepsStart f) (form_fields (stepsStart f)) = (Inr (), g)"
    by (simp add: u_cleanFields_def)
  from stepsStart_state [of f] have
    "cleanedData (stepsStart f) = Some (Obj [])" "u_errors (stepsStart f) = Some ErrorObject"
    by simp_all
  from cleanFields_loop_state [OF l this] obtain cd eo where
    g: "cleanedData g = Some (Obj cd)" "u_errors g = Some eo"
    by blast
  have full: "fullClean pr f = fullClean_steps pr (stepsStart f)"
    using assms(1) assms(2) by (rule fullClean_bound)
  have call: "call_method pr ''clean'' g = (h (logCall (HookCall ''clean'') g), logCall (HookCall ''clean'') g)"
    using assms(4) by (simp add: call_method_def Let_def)
  have other: "fullClean pr f = (Inl (OtherError x), logCall (HookCall ''clean'') g)"
    if "h (logCall (HookCall ''clean'') g) = Inl (OtherError x)" for x
    using that by (simp add: full fullClean_steps_def assms(3) u_cleanForm_def call)
  have rejected:
    "(\<exists>eo. u_errors g = Some eo \<and>
           u_cleanForm pr g =
             (Inr (),
              g\<lparr>calls := calls g @ [HookCall ''clean''],
                u_errors := Some (obj_set eo ''__all__'' ms)\<rparr>) \<and>
           obj_get (obj_set eo ''__all__'' ms) ''__all__'' = Some ms \<and>
           (\<forall>k. k \<noteq> ''__all__'' \<longrightarrow> obj_get (obj_set eo ''__all__'' ms) k = obj_get eo k)) \<and>
     (\<forall>f'. fullClean pr f = (Inr (), f') \<longrightarrow>
           cleanedData f' = None \<and>
           (\<exists>eo'. u_errors f' = Some eo' \<and> errorObject_get eo' ''__all__'' = Some ms)) \<and>
     (pr ''_postClean'' = None \<longrightarrow> fst (fullClean pr f) = Inr ())"
    if ve: "h (logCall (HookCall ''clean'') g) = Inl (ValidationError ms)" for ms
  proof -
    let ?g2 = "g\<lparr>calls := calls g @ [HookCall ''clean''],
                u_errors := Some (obj_set eo ''__all__'' ms)\<rparr>"
    have cf: "u_cleanForm pr g = (Inr (), ?g2)"
      using ve g(2)
      by (simp add: u_cleanForm_def call logCall_def errorObject_set_def NON_FIELD_ERRORS_def)
    have steps: "fullClean pr f =
        (case u_postClean pr ?g2 of
           (Inl e, f3) \<Rightarrow> (Inl e, f3)
         | (Inr u, f3) \<Rightarrow> (Inr (), f3\<lparr>cleanedData := None\<rparr>))"
    proof (cases "u_postClean pr ?g2")
      case (Pair r3 f3)
      from u_postClean_frame [OF Pair] have "u_errors f3 = Some (obj_set eo ''__all__'' ms)"
        by simp
      with Pair show ?thesis
        by (simp add: full fullClean_steps_def assms(3) cf isPopulated_obj_set split: sum.splits)
    qed
    have fin: "cleanedData f' = None \<and>
           (\<exists>eo'. u_errors f' = Some eo' \<and> errorObject_get eo' ''__all__'' = Some ms)"
      if "fullClean pr f = (Inr (), f')" for f'
    proof (cases "u_postClean pr ?g2")
      case (Pair r3 f3)
      from u_postClean_frame [OF Pair] have "u_errors f3 = Some (obj_set eo ''__all__'' ms)"
        by simp
      with Pair that steps show ?thesis
        by (auto simp: errorObject_get_def obj_get_obj_set split: sum.splits)
    qed
    have dflt: "fst (fullClean pr f) = Inr ()" if "pr ''_postClean'' = None"
      using that
      by (simp add: steps u_postClean_def call_method_def this_function_def this_member_def
          BaseForm_postClean_def Let_def)
    from g(2) cf fin dflt show ?thesis
      by (simp add: obj_get_obj_set)
  qed
  from rejected other show ?thesis
    by blast
qed

theorem cleanForm_non_field_errors_witness:
  "fst (fullClean cleanRejects (BaseForm personFields validPerson)) = Inr () \<and>
   cleanedData (snd (fullClean cleanRejects (BaseForm personFields validPerson))) = None \<and>
   (\<exists>eo'. u_errors (snd (fullClean cleanRejects (BaseForm personFields validPerson))) = Some eo' \<and>
          errorObject_get eo' ''__all__'' = Some [''Too young.'']) \<and>
   fst (fullClean cleanBreaks (BaseForm personFields validPerson)) = Inl (OtherError ''ReferenceError'')"
proof -
  let ?F = "BaseForm personFields validPerson"
  have b: "isBound ?F" and e: "\<not> (emptyPermitted ?F \<and> fst (changedData ?F) = [])"
    by (simp_all add: BaseForm_def validPerson_def default_kwargs_def)
  let ?g = "snd (u_cleanFields cleanRejects (stepsStart ?F))"
  have "fst (u_cleanFields cleanRejects (stepsStart ?F)) = Inr ()"
    by code_simp
  then have s: "u_cleanFields cleanRejects (stepsStart ?F) = (Inr (), ?g)"
    by (simp add: prod_eq_iff)
  have h: "this_function cleanRejects ''clean'' = Some (\<lambda>f. Inl (ValidationError [''Too young.'']))"
    by (simp add: this_function_def this_member_def cleanRejects_def)
  have p: "cleanRejects ''_postClean'' = None"
    by (simp add: cleanRejects_def)
  from cleanForm_non_field_errors [OF b e s h] p have
    r1: "fst (fullClean cleanRejects ?F) = Inr ()"
    and r2: "\<forall>f'. fullClean cleanRejects ?F = (Inr (), f') \<longrightarrow>
           cleanedData f' = None \<and>
           (\<exists>eo'. u_errors f' = Some eo' \<and> errorObject_get eo' ''__all__'' = Some [''Too young.''])"
    by blast+
  from r1 have "fullClean cleanRejects ?F = (Inr (), snd (fullClean cleanRejects ?F))"
    by (simp add: prod_eq_iff)
  with r2 have r3: "cleanedData (snd (fullClean cleanRejects ?F)) = None \<and>
           (\<exists>eo'. u_errors (snd (fullClean cleanRejects ?F)) = Some eo' \<and>
                  errorObject_get eo' ''__all__'' = Some [''Too young.''])"
    by blast
  let ?k = "snd (u_cleanFields cleanBreaks (stepsStart ?F))"
  have "fst (u_cleanFields cleanBreaks (stepsStart ?F)) = Inr ()"
    by code_simp
  then have s': "u_cleanFields cleanBreaks (stepsStart ?F) = (Inr (), ?k)"
    by (simp add: prod_eq_iff)
  have h': "this_function cleanBreaks ''clean'' = Some (\<lambda>f. Inl (OtherError ''ReferenceError''))"
    by (simp add: this_function_def this_member_def cleanBreaks_def)
  from cleanForm_non_field_errors [OF b e s' h'] have
    r4: "fst (fullClean cleanBreaks ?F) = Inl (OtherError ''ReferenceError'')"
    by simp
  from r1 r3 r4 show ?thesis
    by blast
qed

section \<open>Using an instance\<close>

lemma errors_snd: "snd (errors pr f) = (if u_errors f = None then snd (fullClean pr f) else f)"
  by (cases "fullClean pr f") (auto simp: errors_def split: sum.splits)

lemma errors_for_snd: "snd (errors_for pr f name) = snd (errors pr f)"
  by (cases "errors pr f") (auto simp: errors_for_def split: sum.splits option.splits)

lemma nonFieldErrors_snd: "snd (nonFieldErrors pr f) = snd (errors pr f)"
  using errors_for_snd [of pr f NON_FIELD_ERRORS]
  by (cases "errors_for pr f NON_FIELD_ERRORS")
    (auto simp: nonFieldErrors_def split: sum.splits option.splits errorsResult.splits)

lemma isValid_snd: "snd (isValid pr f) = (if isBound f then snd (errors pr f) else f)"
  by (cases "errors pr f") (auto simp: isValid_def split: sum.splits option.splits)

lemma use_step_cases:
  "use_step pr f a = f \<or> use_step pr f a = snd (changedData f) \<or>
   (use_step pr f a = snd (fullClean pr f) \<and> (u_errors f = None \<or> a = CallFullClean))"
  by (cases a)
    (simp_all add: errors_snd errors_for_snd nonFieldErrors_snd isValid_snd hasChanged_eq)

lemma fullClean_result: "fullClean pr f = (fst (fullClean pr f), snd (fullClean pr f))"
  by simp

lemma use_step_frame:
  "sameInput f (use_step pr f a) \<and>
   (\<forall>l. u_changedData f = Some l \<longrightarrow> u_changedData (use_step pr f a) = Some l)"
  using use_step_cases [of pr f a] changedData_frame [of f]
    fullClean_frame [OF fullClean_result [of pr f]]
  by (auto simp: sameInput_refl changedData_memo)

lemma use_step_cleaned:
  assumes "u_errors f \<noteq> None" and "a \<noteq> CallFullClean"
  shows "u_errors (use_step pr f a) = u_errors f \<and>
         cleanedData (use_step pr f a) = cleanedData f \<and>
         cleanedNames (calls (use_step pr f a)) = cleanedNames (calls f)"
  using use_step_cases [of pr f a] changedData_frame [of f] assms
  by auto

lemma uses_Cons: "uses pr f (a # us) = uses pr (use_step pr f a) us"
  by (simp add: uses_def)

lemma uses_Nil: "uses pr f [] = f"
  by (simp add: uses_def)

lemma uses_frame:
  "sameInput f (uses pr f us) \<and>
   (\<forall>l. u_changedData f = Some l \<longrightarrow> u_changedData (uses pr f us) = Some l)"
proof (induction us arbitrary: f)
  case Nil
  show ?case by (simp add: uses_Nil sameInput_refl)
next
  case (Cons a us)
  from use_step_frame [of f pr a] Cons.IH [of "use_step pr f a"] show ?case
    by (auto simp: uses_Cons intro: sameInput_trans)
qed

lemma uses_cleaned:
  assumes "u_errors f \<noteq> None" and "CallFullClean \<notin> set us"
  shows "u_errors (uses pr f us) = u_errors f \<and>
         cleanedData (uses pr f us) = cleanedData f \<and>
         cleanedNames (calls (uses pr f us)) = cleanedNames (calls f)"
  using assms
proof (induction us arbitrary: f)
  case Nil
  show ?case by (simp add: uses_Nil)
next
  case (Cons a us)
  from Cons.prems have a: "a \<noteq> CallFullClean" and us: "CallFullClean \<notin> set us"
    by auto
  note s = use_step_cleaned [OF Cons.prems(1) a, of pr]
  with Cons.prems(1) have "u_errors (use_step pr f a) \<noteq> None"
    by simp
  from Cons.IH [OF this us] s show ?case
    by (simp add: uses_Cons)
qed

lemma cleanFields_loop_calls_prefix:
  "cleanFields_loop pr f fs = (r, f') \<Longrightarrow>
     \<exists>k. cleanedNames (calls f') = cleanedNames (calls f) @ take k (map fst fs)"
proof (induction fs arbitrary: f)
  case Nil
  then show ?case by simp
next
  case (Cons nf fs)
  obtain n fld where nf: "nf = (n, fld)" by (cases nf)
  obtain r1 f1 where s: "cleanField pr f (n, fld) = (r1, f1)" by (cases "cleanField pr f (n, fld)")
  from cleanField_frame [OF s] have c1: "cleanedNames (calls f1) = cleanedNames (calls f) @ [n]"
    by simp
  show ?case
  proof (cases r1)
    case (Inl e)
    with Cons.prems nf s have "f' = f1" by simp
    with c1 nf have "cleanedNames (calls f') = cleanedNames (calls f) @ take 1 (map fst (nf # fs))"
      by simp
    then show ?thesis ..
  next
    case (Inr u)
    with Cons.prems nf s have "cleanFields_loop pr f1 fs = (r, f')" by simp
    from Cons.IH [OF this] obtain k where
      "cleanedNames (calls f') = cleanedNames (calls f1) @ take k (map fst fs)" ..
    with c1 nf have "cleanedNames (calls f') = cleanedNames (calls f) @ take (Suc k) (map fst (nf # fs))"
      by simp
    then show ?thesis ..
  qed
qed

lemma fullClean_calls_prefix:
  "\<exists>k. cleanedNames (calls (snd (fullClean pr f))) =
         cleanedNames (calls f) @ take k (ownKeys (form_fields f))"
proof (cases "isBound f")
  case False
  then have "cleanedNames (calls (snd (fullClean pr f))) =
         cleanedNames (calls f) @ take 0 (ownKeys (form_fields f))"
    by (simp add: fullClean_unbound)
  then show ?thesis ..
next
  case True
  show ?thesis
  proof (cases "emptyPermitted f \<and> fst (changedData f) = []")
    case sc: True
    with True changedData_frame [of f]
    have "cleanedNames (calls (snd (fullClean pr f))) =
         cleanedNames (calls f) @ take 0 (ownKeys (form_fields f))"
      by (simp add: fullClean_short_circuit startCleaning_sel)
    then show ?thesis ..
  next
    case False
    with True have full: "fullClean pr f = fullClean_steps pr (stepsStart f)"
      by (simp add: fullClean_bound)
    obtain r1 f1 where s1: "u_cleanFields pr (stepsStart f) = (r1, f1)"
      by (cases "u_cleanFields pr (stepsStart f)")
    then have l1: "cleanFields_loop pr (stepsStart f) (form_fields (stepsStart f)) = (r1, f1)"
      by (simp add: u_cleanFields_def)
    from stepsStart_state [of f] have same: "form_fields (stepsStart f) = form_fields f"
      "cleanedNames (calls (stepsStart f)) = cleanedNames (calls f)"
      by (simp_all add: sameInput_def)
    from cleanFields_loop_calls_prefix [OF l1] same obtain k where
      k: "cleanedNames (calls f1) = cleanedNames (calls f) @ take k (ownKeys (form_fields f))"
      by (auto simp: ownKeys_def)
    obtain r2 f2 where s2: "u_cleanForm pr f1 = (r2, f2)" by (cases "u_cleanForm pr f1")
    obtain r3 f3 where s3: "u_postClean pr f2 = (r3, f3)" by (cases "u_postClean pr f2")
    from u_cleanForm_frame [OF s2] u_postClean_frame [OF s3] have
      c: "cleanedNames (calls f2) = cleanedNames (calls f1)"
         "cleanedNames (calls f3) = cleanedNames (calls f1)"
      by simp_all
    from s1 s2 s3 have
      "snd (fullClean_steps pr (stepsStart f)) = f1 \<or> snd (fullClean_steps pr (stepsStart f)) = f2 \<or>
       snd (fullClean_steps pr (stepsStart f)) = f3 \<or>
       snd (fullClean_steps pr (stepsStart f)) = f3\<lparr>cleanedData := None\<rparr>"
      by (auto simp: fullClean_steps_def split: sum.splits option.splits if_splits)
    with c k full have "cleanedNames (calls (snd (fullClean pr f))) =
         cleanedNames (calls f) @ take k (ownKeys (form_fields f))"
      by auto
    then show ?thesis ..
  qed
qed

section \<open>Unbound instances\<close>

lemma unbound_use_step:
  assumes "\<not> isBound f" and "cleanedData f = None"
    and "u_errors f = None \<or> u_errors f = Some ErrorObject"
  shows "\<not> isBound (use_step pr f a) \<and> cleanedData (use_step pr f a) = None \<and>
         (u_errors (use_step pr f a) = None \<or> u_errors (use_step pr f a) = Some ErrorObject)"
  using use_step_cases [of pr f a] changedData_frame [of f] assms
  by (auto simp: fullClean_unbound sameInput_def)

lemma unbound_uses:
  assumes "\<not> isBound f" and "cleanedData f = None"
    and "u_errors f = None \<or> u_errors f = Some ErrorObject"
  shows "\<not> isBound (uses pr f us) \<and> cleanedData (uses pr f us) = None \<and>
         (u_errors (uses pr f us) = None \<or> u_errors (uses pr f us) = Some ErrorObject)"
  using assms
proof (induction us arbitrary: f)
  case Nil
  then show ?case by (simp add: uses_Nil)
next
  case (Cons a us)
  from unbound_use_step [OF Cons.prems, of pr a] have
    "\<not> isBound (use_step pr f a)" "cleanedData (use_step pr f a) = None"
    "u_errors (use_step pr f a) = None \<or> u_errors (use_step pr f a) = Some ErrorObject"
    by simp_all
  from Cons.IH [OF this] show ?case
    by (simp add: uses_Cons)
qed

text \<open>
  C2. An instance constructed with neither data nor files is unbound and has no
  \<^verbatim>\<open>cleanedData\<close>; whatever is read from it or run on it afterwards, in any order and
  any number of times, \<^verbatim>\<open>isValid()\<close> answers false without touching the instance,
  \<^verbatim>\<open>fullClean()\<close> only installs an empty Error Report, \<^verbatim>\<open>errors()\<close> returns an Error
  Report without keys (not populated), and the \<^verbatim>\<open>cleanedData\<close> property is never
  created.
\<close>

theorem unbound_not_invalid:
  assumes "kw_data kw = None" and "kw_files kw = None"
  shows "\<not> isBound (BaseForm baseFields kw) \<and> cleanedData (BaseForm baseFields kw) = None \<and>
         (\<forall>us. isValid pr (uses pr (BaseForm baseFields kw) us)
                 = (Inr False, uses pr (BaseForm baseFields kw) us) \<and>
               cleanedData (uses pr (BaseForm baseFields kw) us) = None \<and>
               fullClean pr (uses pr (BaseForm baseFields kw) us)
                 = (Inr (), (uses pr (BaseForm baseFields kw) us)\<lparr>u_errors := Some ErrorObject\<rparr>) \<and>
               fst (errors pr (uses pr (BaseForm baseFields kw) us)) = Inr (Some ErrorObject) \<and>
               cleanedData (snd (errors pr (uses pr (BaseForm baseFields kw) us))) = None) \<and>
         \<not> isPopulated ErrorObject \<and> ownKeys ErrorObject = []"
proof -
  let ?F = "BaseForm baseFields kw"
  have init: "\<not> isBound ?F" "cleanedData ?F = None" "u_errors ?F = None \<or> u_errors ?F = Some ErrorObject"
    using assms by (simp_all add: BaseForm_def)
  have each: "isValid pr (uses pr ?F us) = (Inr False, uses pr ?F us) \<and>
               cleanedData (uses pr ?F us) = None \<and>
               fullClean pr (uses pr ?F us) = (Inr (), (uses pr ?F us)\<lparr>u_errors := Some ErrorObject\<rparr>) \<and>
               fst (errors pr (uses pr ?F us)) = Inr (Some ErrorObject) \<and>
               cleanedData (snd (errors pr (uses pr ?F us))) = None" for us
  proof -
    from unbound_uses [OF init, of pr us] have
      u: "\<not> isBound (uses pr ?F us)" "cleanedData (uses pr ?F us) = None"
        "u_errors (uses pr ?F us) = None \<or> u_errors (uses pr ?F us) = Some ErrorObject"
      by simp_all
    from u show ?thesis
      by (auto simp: isValid_def errors_def fullClean_unbound)
  qed
  from init each show ?thesis
    by (simp add: isPopulated_def ErrorObject_def ownKeys_def)
qed

theorem unbound_not_invalid_witness:
  "\<not> isBound (BaseForm personFields default_kwargs) \<and>
   fst (isValid noProto (uses noProto (BaseForm personFields default_kwargs)
                           [ReadErrors, ReadChangedData, CallFullClean, ReadErrors]))
     = Inr False \<and>
   cleanedData (uses noProto (BaseForm personFields default_kwargs)
                  [ReadErrors, ReadChangedData, CallFullClean, ReadErrors]) = None \<and>
   fst (errors noProto (BaseForm personFields default_kwargs)) = Inr (Some []) \<and>
   cleanedData (snd (errors noProto (BaseForm personFields default_kwargs))) = None"
proof -
  have d: "kw_data default_kwargs = None" and f: "kw_files default_kwargs = None"
    by (simp_all add: default_kwargs_def)
  note u = unbound_not_invalid [OF d f, of personFields noProto]
  from u have all: "\<forall>us. isValid noProto (uses noProto (BaseForm personFields default_kwargs) us)
                 = (Inr False, uses noProto (BaseForm personFields default_kwargs) us) \<and>
               cleanedData (uses noProto (BaseForm personFields default_kwargs) us) = None \<and>
               fst (errors noProto (uses noProto (BaseForm personFields default_kwargs) us))
                 = Inr (Some ErrorObject) \<and>
               cleanedData (snd (errors noProto (uses noProto (BaseForm personFields default_kwargs) us)))
                 = None"
    and unb: "\<not> isBound (BaseForm personFields default_kwargs)"
    by blast+
  from all [rule_format, of "[ReadErrors, ReadChangedData, CallFullClean, ReadErrors]"]
    all [rule_format, of "[]"] unb
  show ?thesis
    by (simp add: uses_Nil ErrorObject_def)
qed

section \<open>Cleaning and change detection run once\<close>

lemma uses_distinct:
  assumes "wf_obj (form_fields f)" and "u_errors f = None" and "cleanedNames (calls f) = []"
    and "CallFullClean \<notin> set us"
  shows "distinct (cleanedNames (calls (uses pr f us)))"
  using assms
proof (induction us arbitrary: f)
  case Nil
  then show ?case by (simp add: uses_Nil)
next
  case (Cons a us)
  from Cons.prems(4) have a: "a \<noteq> CallFullClean" and us: "CallFullClean \<notin> set us"
    by auto
  from use_step_frame [of f pr a] Cons.prems(1) have wf: "wf_obj (form_fields (use_step pr f a))"
    by (simp add: sameInput_def)
  consider "use_step pr f a = f" | "use_step pr f a = snd (changedData f)"
    | "use_step pr f a = snd (fullClean pr f)"
    using use_step_cases [of pr f a] by blast
  then show ?case
  proof cases
    case 1
    with Cons.IH [OF Cons.prems(1) Cons.prems(2) Cons.prems(3) us] show ?thesis
      by (simp add: uses_Cons)
  next
    case 2
    with changedData_frame [of f] Cons.prems have
      "u_errors (use_step pr f a) = None" "cleanedNames (calls (use_step pr f a)) = []"
      by simp_all
    from Cons.IH [OF wf this us] show ?thesis
      by (simp add: uses_Cons)
  next
    case 3
    from fullClean_frame [OF fullClean_result [of pr f]] 3
    have e: "u_errors (use_step pr f a) \<noteq> None"
      by simp
    from fullClean_calls_prefix [of pr f] Cons.prems(3) 3 obtain k where
      "cleanedNames (calls (use_step pr f a)) = take k (ownKeys (form_fields f))"
      by auto
    with Cons.prems(1) have "distinct (cleanedNames (calls (use_step pr f a)))"
      by (simp add: wf_obj_def)
    with uses_cleaned [OF e us, of pr] show ?thesis
      by (simp add: uses_Cons)
  qed
qed

text \<open>
  C9. Reading \<^verbatim>\<open>errors()\<close> leaves an Error Report on the instance, even when the
  cleaning throws. From then on, whatever is read from the instance (errors, validity,
  cleaned data, changed data), \<^verbatim>\<open>errors()\<close> returns that stored report, \<^verbatim>\<open>cleanedData\<close>
  stays as it is, and the \<^verbatim>\<open>clean\<close> of no field is called again; so on an instance
  that is only read, the \<^verbatim>\<open>clean\<close> of every field is called at most once. Likewise
  \<^verbatim>\<open>changedData()\<close> stores the list it returns, and once stored that list is what it
  returns, without computing, whatever has been read or run in between.
\<close>

theorem fullClean_at_most_once:
  "u_errors (snd (errors pr f)) \<noteq> None \<and>
   (u_errors f \<noteq> None \<and> CallFullClean \<notin> set us \<longrightarrow>
      errors pr (uses pr f us) = (Inr (u_errors f), uses pr f us) \<and>
      cleanedData (uses pr f us) = cleanedData f \<and>
      cleanedNames (calls (uses pr f us)) = cleanedNames (calls f)) \<and>
   (wf_obj baseFields \<and> CallFullClean \<notin> set us \<longrightarrow>
      distinct (cleanedNames (calls (uses pr (BaseForm baseFields kw) us)))) \<and>
   u_changedData (snd (changedData f)) = Some (fst (changedData f)) \<and>
   (\<forall>l. u_changedData f = Some l \<longrightarrow> changedData (uses pr f us) = (l, uses pr f us))"
proof -
  have first: "u_errors (snd (errors pr f)) \<noteq> None"
    using fullClean_frame [OF fullClean_result [of pr f]]
    by (simp add: errors_snd)
  have later: "errors pr (uses pr f us) = (Inr (u_errors f), uses pr f us) \<and>
      cleanedData (uses pr f us) = cleanedData f \<and>
      cleanedNames (calls (uses pr f us)) = cleanedNames (calls f)"
    if "u_errors f \<noteq> None" "CallFullClean \<notin> set us"
    using uses_cleaned [OF that, of pr] that(1)
    by (auto simp: errors_def)
  have once: "distinct (cleanedNames (calls (uses pr (BaseForm baseFields kw) us)))"
    if "wf_obj baseFields" "CallFullClean \<notin> set us"
    by (rule uses_distinct) (simp_all add: that BaseForm_def)
  have stored: "u_changedData (snd (changedData f)) = Some (fst (changedData f))"
    using changedData_frame [of f] by simp
  have memo: "changedData (uses pr f us) = (l, uses pr f us)" if "u_changedData f = Some l" for l
    using uses_frame [of f pr us] that
    by (simp add: changedData_memo)
  from first later once stored memo show ?thesis
    by blast
qed

theorem fullClean_at_most_once_witness:
  "cleanedNames (calls (uses noProto (BaseForm personFields invalidPerson)
      [ReadErrors, ReadIsValid, ReadCleanedData, ReadErrors, ReadChangedData, ReadNonFieldErrors]))
     = [''name'', ''age''] \<and>
   fst (errors noProto (uses noProto (snd (errors noProto (BaseForm personFields invalidPerson)))
      [ReadIsValid, ReadCleanedData, ReadErrors, ReadChangedData, ReadNonFieldErrors]))
     = Inr (Some [(''name'', [''This field is required.''])]) \<and>
   fst (changedData (uses noProto (snd (changedData (BaseForm personFields invalidPerson)))
      [ReadErrors, CallFullClean, ReadChangedData]))
     = [''age''] \<and>
   distinct (cleanedNames (calls (uses noProto (BaseForm personFields invalidPerson)
      [ReadIsValid, ReadErrors, ReadNonFieldErrors, ReadIsValid])))"
proof -
  let ?F = "BaseForm personFields invalidPerson"
  have wf: "wf_obj personFields"
    by (simp add: wf_obj_def ownKeys_def personFields_def)
  have no': "CallFullClean \<notin> set [ReadIsValid, ReadErrors, ReadNonFieldErrors, ReadIsValid]"
    by simp
  from fullClean_at_most_once [of noProto _ "[ReadIsValid, ReadErrors, ReadNonFieldErrors, ReadIsValid]"
      personFields invalidPerson] wf no'
  have once: "distinct (cleanedNames (calls (uses noProto ?F
      [ReadIsValid, ReadErrors, ReadNonFieldErrors, ReadIsValid])))"
    by blast
  let ?f1 = "snd (errors noProto ?F)"
  let ?us = "[ReadIsValid, ReadCleanedData, ReadErrors, ReadChangedData, ReadNonFieldErrors]"
  from fullClean_at_most_once [of noProto ?F] have e1: "u_errors ?f1 \<noteq> None"
    by blast
  have no: "CallFullClean \<notin> set ?us"
    by simp
  from fullClean_at_most_once [of noProto ?f1 ?us] e1 no have
    again: "errors noProto (uses noProto ?f1 ?us) = (Inr (u_errors ?f1), uses noProto ?f1 ?us)"
    and log: "cleanedNames (calls (uses noProto ?f1 ?us)) = cleanedNames (calls ?f1)"
    by blast+
  have c1: "cleanedNames (calls ?f1) = [''name'', ''age'']"
    by code_simp
  have r1: "u_errors ?f1 = Some [(''name'', [''This field is required.''])]"
    by code_simp
  have step: "uses noProto ?F (ReadErrors # ?us) = uses noProto ?f1 ?us"
    by (simp add: uses_Cons)
  let ?g = "snd (changedData ?F)"
  from fullClean_at_most_once [of noProto ?F] have
    "u_changedData ?g = Some (fst (changedData ?F))"
    by blast
  with fullClean_at_most_once [of noProto ?g "[ReadErrors, CallFullClean, ReadChangedData]"] have
    "changedData (uses noProto ?g [ReadErrors, CallFullClean, ReadChangedData])
       = (fst (changedData ?F), uses noProto ?g [ReadErrors, CallFullClean, ReadChangedData])"
    by blast
  moreover have "fst (changedData ?F) = [''age'']"
    by code_simp
  ultimately have memo: "fst (changedData (uses noProto ?g [ReadErrors, CallFullClean, ReadChangedData]))
       = [''age'']"
    by simp
  from again log c1 r1 step memo once show ?thesis
    by simp
qed

end
